theory Spec2Isabelle
  imports Main "HOL-Library.Signed_Division"
begin

section \<open>Data model\<close>

text \<open>
  The program multiplies two square integer matrices with Strassen's algorithm over
  views (\<open>submatrix\<close>) into shared buffers (\<open>matrix_data\<close>).  The embedding follows
  the version of the program that owns the scratch arena (\<open>padding_size\<close>,
  \<open>strassen_mul\<close>, \<open>linear_mul\<close>, \<open>sum\<close>, \<open>sub\<close> and the classes \<open>matrix_data\<close>
  and \<open>submatrix\<close> with \<open>in_bounds\<close>); the view type and the recursion of the earlier
  version in \<open>_strassen.cpp\<close> are embedded after it.

  \<^item> C++ \<open>int\<close> indices and dimensions are \<open>int\<close>, and sizes and indices are computed
    on the mathematical integers.  That is the 32-bit arithmetic of the program as long
    as the side of every buffer is at most 46340, the largest side whose square
    \<open>dimension * dimension\<close> fits a 32-bit \<open>int\<close>; the theorems about \<open>main\<close> assume this
    bound, and a view that lies inside its buffer lies inside a buffer that a constructor
    has built, whose side is within it.  The product that \<open>padding_size\<close> returns can leave the 32-bit range for a
    dimension inside it, so \<open>padding_size\<close> is written with the wrap-around (\<open>wrap32\<close>).
  \<^item> Matrix entries are elements of an arbitrary ring \<open>'a\<close>: at \<open>int\<close> this is
    exact integer arithmetic, at a word type it is the wrapping machine arithmetic.
  \<^item> A \<open>std::shared_ptr<std::vector<int>>\<close> is an address into a heap that maps
    addresses to vectors; copies of a \<open>matrix_data\<close> share the address.
  \<^item> \<open>std::vector::at\<close> throws \<open>std::out_of_range\<close>; the throw is the value
    \<open>Inl OutOfRange\<close>.
\<close>

datatype error = OutOfRange | AssertionFailed

record 'a heap =
  cells :: "nat \<Rightarrow> 'a list"
  next_addr :: nat

record matrix_data =
  md_dimension :: int
  md_data :: nat

record submatrix =
  sm_data :: matrix_data
  sm_i :: int
  sm_j :: int
  sm_dimension :: int

text \<open>Sequencing of statements that may throw.\<close>

definition then_E :: "error + 's \<Rightarrow> ('s \<Rightarrow> error + 't) \<Rightarrow> error + 't" where
  "then_E r k = (case r of Inl e \<Rightarrow> Inl e | Inr s \<Rightarrow> k s)"

text \<open>A \<open>for\<close> loop over the values of its counter, leaving at the first throw.\<close>

fun for_each :: "int list \<Rightarrow> (int \<Rightarrow> 's \<Rightarrow> error + 's) \<Rightarrow> 's \<Rightarrow> error + 's" where
  "for_each [] body s = Inr s"
| "for_each (x # xs) body s = then_E (body x s) (for_each xs body)"

subsection \<open>Ceiling halving and the padding calculator\<close>

text \<open>\<open>x / 2 + (x % 2 != 0)\<close> with the truncating division of C++.\<close>

definition ceil_divide :: "int \<Rightarrow> int" where
  "ceil_divide x = x sdiv 2 + (if x smod 2 \<noteq> 0 then 1 else 0)"

text \<open>
  The value of a 32-bit two's complement \<open>int\<close> that holds the low 32 bits of \<open>x\<close>.
\<close>

definition wrap32 :: "int \<Rightarrow> int" where
  "wrap32 x = (x + 2147483648) mod 4294967296 - 2147483648"

text \<open>
  The \<open>while\<close> loop of \<open>padding_size\<close>; it does not leave the loop when
  \<open>cutoff < 1 \<le> dimension\<close>, which is the value \<open>None\<close>.  When it leaves the loop for a
  32-bit \<open>dimension\<close>, \<open>power\<close> is at most 31, and \<open>ceil_divide\<close> does not leave the 32-bit
  range.  The result \<open>dimension * (1 << power)\<close> is computed in 32 bits: \<open>1 << 31\<close> is the
  least \<open>int\<close>, and a product out of range, which C++ leaves undefined, is taken with
  the wrap-around.
\<close>

partial_function (option) padding_size_loop :: "int \<Rightarrow> int \<Rightarrow> int \<Rightarrow> (int \<times> int) option" where
  "padding_size_loop cutoff pow dimension =
     (if dimension > cutoff
      then padding_size_loop cutoff (pow + 1) (ceil_divide dimension)
      else Some (pow, dimension))"

declare padding_size_loop.simps [code]

definition padding_size :: "int \<Rightarrow> int \<Rightarrow> int option" where
  "padding_size dimension cutoff =
     map_option (\<lambda>(pow, d). wrap32 (d * wrap32 (push_bit (nat pow) 1)))
       (padding_size_loop cutoff 0 dimension)"

subsection \<open>Buffers\<close>

text \<open>The constructor \<open>matrix_data(dimension)\<close>: a fresh zero vector of \<open>dimension\<^sup>2\<close> cells.\<close>

definition matrix_data_new :: "int \<Rightarrow> 'a::zero heap \<Rightarrow> matrix_data \<times> 'a heap" where
  "matrix_data_new d h =
     (\<lparr>md_dimension = d, md_data = next_addr h\<rparr>,
      h\<lparr>cells := (cells h)(next_addr h := replicate (nat (d * d)) 0),
        next_addr := Suc (next_addr h)\<rparr>)"

definition vector_at :: "'a list \<Rightarrow> int \<Rightarrow> error + 'a" where
  "vector_at v k = (if 0 \<le> k \<and> k < int (length v) then Inr (v ! nat k) else Inl OutOfRange)"

definition vector_assign :: "'a list \<Rightarrow> int \<Rightarrow> 'a \<Rightarrow> error + 'a list" where
  "vector_assign v k x =
     (if 0 \<le> k \<and> k < int (length v) then Inr (v[nat k := x]) else Inl OutOfRange)"

definition md_in_bounds :: "'a heap \<Rightarrow> matrix_data \<Rightarrow> int \<Rightarrow> int \<Rightarrow> bool" where
  "md_in_bounds h m i j \<longleftrightarrow>
     i \<ge> 0 \<and> j \<ge> 0 \<and> i + md_dimension m * j < int (length (cells h (md_data m)))"

definition md_get :: "'a heap \<Rightarrow> matrix_data \<Rightarrow> int \<Rightarrow> int \<Rightarrow> error + 'a" where
  "md_get h m i j = vector_at (cells h (md_data m)) (i + md_dimension m * j)"

text \<open>Assignment through the reference that \<open>matrix_data::at(i, j)\<close> returns.\<close>

definition md_assign :: "'a heap \<Rightarrow> matrix_data \<Rightarrow> int \<Rightarrow> int \<Rightarrow> 'a \<Rightarrow> error + 'a heap" where
  "md_assign h m i j x =
     then_E (vector_assign (cells h (md_data m)) (i + md_dimension m * j) x)
       (\<lambda>v. Inr (h\<lparr>cells := (cells h)(md_data m := v)\<rparr>))"

subsection \<open>Views\<close>

definition submatrix_new :: "matrix_data \<Rightarrow> submatrix" where
  "submatrix_new m = \<lparr>sm_data = m, sm_i = 0, sm_j = 0, sm_dimension = md_dimension m\<rparr>"

definition submatrix_sub :: "submatrix \<Rightarrow> int \<Rightarrow> int \<Rightarrow> submatrix" where
  "submatrix_sub s x y =
     (let d = ceil_divide (sm_dimension s)
      in \<lparr>sm_data = sm_data s, sm_i = sm_i s + x * d, sm_j = sm_j s + y * d, sm_dimension = d\<rparr>)"

definition submatrix_in_bounds :: "'a heap \<Rightarrow> submatrix \<Rightarrow> int \<Rightarrow> int \<Rightarrow> bool" where
  "submatrix_in_bounds h s x y \<longleftrightarrow>
     md_in_bounds h (sm_data s) (x + sm_i s) (y + sm_j s) \<and>
     (x \<ge> 0 \<and> x < sm_dimension s \<and> y \<ge> 0 \<and> y < sm_dimension s)"

text \<open>
  \<open>submatrix::at(x, y)\<close> returns a reference: to the buffer cell when the coordinates
  are in bounds, and otherwise to the member \<open>padding\<close> of the view object, which it
  has just set to 0.  Every view is passed by value, so the \<open>padding\<close> member belongs
  to one parameter of one call; what is stored into it is never read again.  Reading
  through the reference is \<open>submatrix_at\<close>, storing through it is \<open>submatrix_assign\<close>.
\<close>

definition submatrix_at :: "'a::zero heap \<Rightarrow> submatrix \<Rightarrow> int \<Rightarrow> int \<Rightarrow> error + 'a" where
  "submatrix_at h s x y =
     (if \<not> submatrix_in_bounds h s x y then Inr 0
      else md_get h (sm_data s) (x + sm_i s) (y + sm_j s))"

definition submatrix_assign :: "'a heap \<Rightarrow> submatrix \<Rightarrow> int \<Rightarrow> int \<Rightarrow> 'a \<Rightarrow> error + 'a heap" where
  "submatrix_assign h s x y v =
     (if \<not> submatrix_in_bounds h s x y then Inr h
      else md_assign h (sm_data s) (x + sm_i s) (y + sm_j s) v)"

definition submatrix_clear :: "submatrix \<Rightarrow> 'a::zero heap \<Rightarrow> error + 'a heap" where
  "submatrix_clear s =
     for_each [0 .. sm_dimension s - 1] (\<lambda>j.
       for_each [0 .. sm_dimension s - 1] (\<lambda>i h. submatrix_assign h s i j 0))"

text \<open>
  \<open>submatrix::operator==\<close>: two nested loops that return \<open>false\<close> at the first pair of
  cells that differ.  The cells are read with \<open>matrix_data::get(x, y)\<close> on the two buffers,
  which throws outside the vector.  \<open>for_all_E\<close> is such an early-exit loop: the
  conjunction of the tests, left at the first failure or throw.
\<close>

fun for_all_E :: "int list \<Rightarrow> (int \<Rightarrow> error + bool) \<Rightarrow> error + bool" where
  "for_all_E [] test = Inr True"
| "for_all_E (x # xs) test = then_E (test x) (\<lambda>ok. if ok then for_all_E xs test else Inr False)"

definition submatrix_eq :: "'a heap \<Rightarrow> submatrix \<Rightarrow> submatrix \<Rightarrow> error + bool" where
  "submatrix_eq h s other =
     (if sm_dimension s \<noteq> sm_dimension other then Inr False
      else for_all_E [0 .. sm_dimension other - 1] (\<lambda>x.
             for_all_E [0 .. sm_dimension other - 1] (\<lambda>y.
               then_E (md_get h (sm_data s) x y) (\<lambda>u.
               then_E (md_get h (sm_data other) x y) (\<lambda>v.
               Inr (u = v))))))"

subsection \<open>Elementwise sum and difference, and the linear multiplier\<close>

definition sum_m :: "submatrix \<Rightarrow> submatrix \<Rightarrow> submatrix \<Rightarrow> 'a::ring heap \<Rightarrow> error + 'a heap" where
  "sum_m a b c =
     for_each [0 .. sm_dimension c - 1] (\<lambda>j.
       for_each [0 .. sm_dimension c - 1] (\<lambda>i h.
         then_E (submatrix_at h a i j) (\<lambda>va.
         then_E (submatrix_at h b i j) (\<lambda>vb.
         submatrix_assign h c i j (va + vb)))))"

definition sub_m :: "submatrix \<Rightarrow> submatrix \<Rightarrow> submatrix \<Rightarrow> 'a::ring heap \<Rightarrow> error + 'a heap" where
  "sub_m a b c =
     for_each [0 .. sm_dimension c - 1] (\<lambda>j.
       for_each [0 .. sm_dimension c - 1] (\<lambda>i h.
         then_E (submatrix_at h a i j) (\<lambda>va.
         then_E (submatrix_at h b i j) (\<lambda>vb.
         submatrix_assign h c i j (va - vb)))))"

definition linear_mul :: "submatrix \<Rightarrow> submatrix \<Rightarrow> submatrix \<Rightarrow> 'a::ring heap \<Rightarrow> error + 'a heap" where
  "linear_mul a b c =
     for_each [0 .. sm_dimension c - 1] (\<lambda>k.
       for_each [0 .. sm_dimension c - 1] (\<lambda>i h.
         then_E (submatrix_at h a i k) (\<lambda>r.
           for_each [0 .. sm_dimension c - 1] (\<lambda>j h.
             then_E (submatrix_at h b k j) (\<lambda>vb.
             then_E (submatrix_at h c i j) (\<lambda>vc.
             submatrix_assign h c i j (vc + r * vb)))) h)))"

subsection \<open>The Strassen multiplier\<close>

text \<open>
  Sequencing inside the recursion: \<open>None\<close> is a call that does not return,
  \<open>Some (Inl e)\<close> a throw, \<open>Some (Inr h)\<close> a normal return with heap \<open>h\<close>.
\<close>

definition then_R :: "(error + 's) option \<Rightarrow> ('s \<Rightarrow> (error + 't) option) \<Rightarrow> (error + 't) option" where
  "then_R m k = Option.bind m (\<lambda>r. case r of Inl e \<Rightarrow> Some (Inl e) | Inr s \<Rightarrow> k s)"

lemma then_R_mono [partial_function_mono]:
  assumes "mono_option B" and "\<And>y. mono_option (\<lambda>f. C y f)"
  shows "mono_option (\<lambda>f. then_R (B f) (\<lambda>y. C y f))"
  unfolding then_R_def
proof (rule bind_mono [OF assms(1)])
  fix r :: "error + 'c"
  show "mono_option (\<lambda>f. case r of Inl e \<Rightarrow> Some (Inl e) | Inr s \<Rightarrow> C s f)"
    by (cases r) (simp_all add: option.const_mono assms(2))
qed

text \<open>
  The closure \<open>strassen_mul_recursion\<close> of \<open>strassen_mul\<close>; it captures \<open>cutoff\<close>.
  Its non-terminal branch is \<open>strassen_decompose\<close>, which takes the closure itself
  as \<open>recursion\<close> for the seven recursive calls.
\<close>

definition strassen_decompose ::
  "(submatrix \<Rightarrow> submatrix \<Rightarrow> submatrix \<Rightarrow> submatrix \<Rightarrow> 'a heap \<Rightarrow> (error + 'a heap) option) \<Rightarrow>
   submatrix \<Rightarrow> submatrix \<Rightarrow> submatrix \<Rightarrow> submatrix \<Rightarrow> 'a::ring heap \<Rightarrow> (error + 'a heap) option"
where
  "strassen_decompose recursion A B C S h =
     (let A00 = submatrix_sub A 0 0; A01 = submatrix_sub A 0 1;
          A10 = submatrix_sub A 1 0; A11 = submatrix_sub A 1 1;
          B00 = submatrix_sub B 0 0; B01 = submatrix_sub B 0 1;
          B10 = submatrix_sub B 1 0; B11 = submatrix_sub B 1 1;
          C00 = submatrix_sub C 0 0; C01 = submatrix_sub C 0 1;
          C10 = submatrix_sub C 1 0; C11 = submatrix_sub C 1 1;
          M = submatrix_sub S 0 0;
          SR = submatrix_sub S 0 1;
          sum0 = submatrix_sub S 1 0; sum1 = submatrix_sub S 1 1
      in
      then_R (Some (sum_m A00 A11 sum0 h)) (\<lambda>h.
      then_R (Some (sum_m B00 B11 sum1 h)) (\<lambda>h.
      then_R (recursion sum0 sum1 M SR h) (\<lambda>h.
      then_R (Some (sum_m C00 M C00 h)) (\<lambda>h.
      then_R (Some (sum_m C11 M C11 h)) (\<lambda>h.

      then_R (Some (sum_m A10 A11 sum0 h)) (\<lambda>h.
      then_R (recursion sum0 B00 M SR h) (\<lambda>h.
      then_R (Some (sum_m C10 M C10 h)) (\<lambda>h.
      then_R (Some (sub_m C11 M C11 h)) (\<lambda>h.

      then_R (Some (sub_m B01 B11 sum0 h)) (\<lambda>h.
      then_R (recursion A00 sum0 M SR h) (\<lambda>h.
      then_R (Some (sum_m C01 M C01 h)) (\<lambda>h.
      then_R (Some (sum_m C11 M C11 h)) (\<lambda>h.

      then_R (Some (sub_m B10 B00 sum0 h)) (\<lambda>h.
      then_R (recursion A11 sum0 M SR h) (\<lambda>h.
      then_R (Some (sum_m C00 M C00 h)) (\<lambda>h.
      then_R (Some (sum_m C10 M C10 h)) (\<lambda>h.

      then_R (Some (sum_m A00 A01 sum0 h)) (\<lambda>h.
      then_R (recursion sum0 B11 M SR h) (\<lambda>h.
      then_R (Some (sub_m C00 M C00 h)) (\<lambda>h.
      then_R (Some (sum_m C01 M C01 h)) (\<lambda>h.

      then_R (Some (sub_m A10 A00 sum0 h)) (\<lambda>h.
      then_R (Some (sum_m B00 B01 sum1 h)) (\<lambda>h.
      then_R (recursion sum0 sum1 M SR h) (\<lambda>h.
      then_R (Some (sum_m C11 M C11 h)) (\<lambda>h.

      then_R (Some (sub_m A01 A11 sum0 h)) (\<lambda>h.
      then_R (Some (sum_m B10 B11 sum1 h)) (\<lambda>h.
      then_R (recursion sum0 sum1 M SR h) (\<lambda>h.
      Some (sum_m C00 M C00 h))))))))))))))))))))))))))))))"

lemma strassen_decompose_mono [partial_function_mono]:
  assumes "\<And>A B C S h. mono_option (\<lambda>f. R f A B C S h)"
  shows "mono_option (\<lambda>f. strassen_decompose (R f) A B C S h)"
  unfolding strassen_decompose_def Let_def
  by (intro then_R_mono option.const_mono assms)

partial_function (option) strassen_mul_recursion ::
  "int \<Rightarrow> submatrix \<Rightarrow> submatrix \<Rightarrow> submatrix \<Rightarrow> submatrix \<Rightarrow> 'a::ring heap \<Rightarrow> (error + 'a heap) option"
where
  "strassen_mul_recursion cutoff A B C S h =
     then_R (Some (submatrix_clear C h)) (\<lambda>h.
       if sm_dimension C smod 2 = 1 \<or> sm_dimension C \<le> cutoff
       then Some (linear_mul A B C h)
       else strassen_decompose (strassen_mul_recursion cutoff) A B C S h)"

declare strassen_mul_recursion.simps [code]

text \<open>
  \<open>strassen_mul(a, b, c, cutoff)\<close>: the input views take the side of the output view,
  a scratch buffer of that side is allocated, and the recursion runs on the four views.
\<close>

definition strassen_mul ::
  "submatrix \<Rightarrow> submatrix \<Rightarrow> submatrix \<Rightarrow> int \<Rightarrow> 'a::ring heap \<Rightarrow> (error + 'a heap) option"
where
  "strassen_mul a b c cutoff h =
     (let dimension = sm_dimension c;
          a = a\<lparr>sm_dimension := dimension\<rparr>;
          b = b\<lparr>sm_dimension := dimension\<rparr>;
          (scratch_space, h) = matrix_data_new dimension h
      in strassen_mul_recursion cutoff a b c (submatrix_new scratch_space) h)"

subsection \<open>The multiplication as \<open>main\<close> runs it\<close>

text \<open>
  \<open>main\<close> allocates the input buffers \<open>a\<close> and \<open>b\<close> of the true dimension and assigns
  all their cells (from random numbers or from the lines of a file; \<open>populate\<close> takes the
  list of the \<open>dimension\<^sup>2\<close> values assigned), allocates the output buffer \<open>c_padded\<close> of
  the padded dimension, and calls \<open>strassen_mul\<close> on the full views of the three buffers.
  The view \<open>c\<close> of the output buffer has the true dimension as its side.
\<close>

definition empty_heap :: "'a heap" where
  "empty_heap = \<lparr>cells = (\<lambda>p. []), next_addr = 0\<rparr>"

definition populate :: "matrix_data \<Rightarrow> 'a list \<Rightarrow> 'a heap \<Rightarrow> 'a heap" where
  "populate m xs h = h\<lparr>cells := (cells h)(md_data m := xs)\<rparr>"

definition main_strassen ::
  "int \<Rightarrow> int \<Rightarrow> 'a::ring list \<Rightarrow> 'a list \<Rightarrow> (error + (matrix_data \<times> matrix_data \<times> submatrix \<times> 'a heap)) option"
where
  "main_strassen dimension cutoff adata bdata =
     (let (a, h) = matrix_data_new dimension empty_heap;
          (b, h) = matrix_data_new dimension h;
          h = populate b bdata (populate a adata h)
      in case padding_size dimension cutoff of
           None \<Rightarrow> None
         | Some padded \<Rightarrow>
             (let (c_padded, h) = matrix_data_new padded h;
                  c = (submatrix_new c_padded)\<lparr>sm_dimension := dimension\<rparr>
              in then_R (strassen_mul (submatrix_new a) (submatrix_new b) (submatrix_new c_padded) cutoff h)
                   (\<lambda>h. Some (Inr (a, b, c, h)))))"

text \<open>
  The \<open>VERIFY\<close> branch of \<open>main\<close>: a fresh buffer \<open>check\<close> of the true dimension receives
  \<open>linear_mul(a, b, check)\<close>, and the program asserts \<open>submatrix(c) == submatrix(check)\<close>.
\<close>

definition main_linear ::
  "int \<Rightarrow> matrix_data \<Rightarrow> matrix_data \<Rightarrow> 'a::ring heap \<Rightarrow> error + (matrix_data \<times> 'a heap)"
where
  "main_linear dimension a b h =
     (let (check, h) = matrix_data_new dimension h
      in then_E (linear_mul (submatrix_new a) (submatrix_new b) (submatrix_new check) h)
           (\<lambda>h. Inr (check, h)))"

subsection \<open>The earlier version of the program\<close>

text \<open>
  The file \<open>_strassen.cpp\<close> holds an earlier version of the program.  Its view type is
  \<open>matrix\<close>, with \<open>at\<close> and \<open>set\<close> that test the two buffer coordinates against the side
  \<open>N\<close> of the buffer; every level of its recursion \<open>mul\<close> allocates its own temporaries,
  and three global counters count the multiplications, the additions and the cells
  allocated.  The names that the two versions share carry the suffix \<open>v1\<close> here.
\<close>

record global_stats =
  multiplications :: int
  additions :: int
  ints_allocated :: int

record 'a machine =
  mem :: "'a heap"
  stats :: global_stats

record matrix_data_v1 =
  v1_data :: nat
  v1_N :: int

record matrix =
  m_i :: int
  m_j :: int
  m_n :: int
  m_data :: matrix_data_v1

text \<open>The constructor \<open>matrix(N)\<close>: a fresh zero vector of \<open>N\<^sup>2\<close> cells, which it counts.\<close>

definition matrix_new :: "int \<Rightarrow> 'a::zero machine \<Rightarrow> matrix \<times> 'a machine" where
  "matrix_new N w =
     (\<lparr>m_i = 0, m_j = 0, m_n = N, m_data = \<lparr>v1_data = next_addr (mem w), v1_N = N\<rparr>\<rparr>,
      w\<lparr>mem := (mem w)\<lparr>cells := (cells (mem w))(next_addr (mem w) := replicate (nat (N * N)) 0),
                         next_addr := Suc (next_addr (mem w))\<rparr>,
        stats := (stats w)\<lparr>ints_allocated := ints_allocated (stats w) + N * N\<rparr>\<rparr>)"

definition matrix_sub :: "matrix \<Rightarrow> int \<Rightarrow> int \<Rightarrow> matrix" where
  "matrix_sub m x y =
     (let n = ceil_divide (m_n m)
      in \<lparr>m_i = m_i m + x * n, m_j = m_j m + y * n, m_n = n, m_data = m_data m\<rparr>)"

definition matrix_at :: "'a::zero heap \<Rightarrow> matrix \<Rightarrow> int \<Rightarrow> int \<Rightarrow> error + 'a" where
  "matrix_at h m x y =
     (if x + m_i m < v1_N (m_data m) \<and> y + m_j m < v1_N (m_data m)
      then vector_at (cells h (v1_data (m_data m))) (x + m_i m + v1_N (m_data m) * (y + m_j m))
      else Inr 0)"

definition matrix_set :: "'a heap \<Rightarrow> matrix \<Rightarrow> int \<Rightarrow> int \<Rightarrow> 'a \<Rightarrow> error + 'a heap" where
  "matrix_set h m x y v =
     (if x + m_i m < v1_N (m_data m) \<and> y + m_j m < v1_N (m_data m)
      then then_E (vector_assign (cells h (v1_data (m_data m)))
                     (x + m_i m + v1_N (m_data m) * (y + m_j m)) v)
             (\<lambda>u. Inr (h\<lparr>cells := (cells h)(v1_data (m_data m) := u)\<rparr>))
      else Inr h)"

definition count_addition :: "'a machine \<Rightarrow> 'a machine" where
  "count_addition w = w\<lparr>stats := (stats w)\<lparr>additions := additions (stats w) + 1\<rparr>\<rparr>"


text \<open>The closures \<open>sum\<close>, \<open>sub\<close> and \<open>mul\<close> of \<open>main\<close>.\<close>

definition sum_v1 :: "matrix \<Rightarrow> matrix \<Rightarrow> matrix \<Rightarrow> 'a::ring machine \<Rightarrow> error + 'a machine" where
  "sum_v1 a b c =
     for_each [0 .. m_n c - 1] (\<lambda>y.
       for_each [0 .. m_n c - 1] (\<lambda>x w.
         then_E (matrix_at (mem w) a x y) (\<lambda>va.
         then_E (matrix_at (mem w) b x y) (\<lambda>vb.
         then_E (matrix_set (mem w) c x y (va + vb)) (\<lambda>h.
         Inr (count_addition (w\<lparr>mem := h\<rparr>)))))))"

definition sub_v1 :: "matrix \<Rightarrow> matrix \<Rightarrow> matrix \<Rightarrow> 'a::ring machine \<Rightarrow> error + 'a machine" where
  "sub_v1 a b c =
     for_each [0 .. m_n c - 1] (\<lambda>y.
       for_each [0 .. m_n c - 1] (\<lambda>x w.
         then_E (matrix_at (mem w) a x y) (\<lambda>va.
         then_E (matrix_at (mem w) b x y) (\<lambda>vb.
         then_E (matrix_set (mem w) c x y (va - vb)) (\<lambda>h.
         Inr (count_addition (w\<lparr>mem := h\<rparr>)))))))"


text \<open>
  The other branch of \<open>mul\<close>, with \<open>recursion\<close> for the seven calls of \<open>mul\<close> itself.  The
  temporaries \<open>sum0\<close>, \<open>sum1\<close> and \<open>m0\<close> to \<open>m6\<close> are allocated where the source declares
  them.
\<close>

definition mul_decompose ::
  "(matrix \<Rightarrow> matrix \<Rightarrow> matrix \<Rightarrow> 'a machine \<Rightarrow> (error + 'a machine) option) \<Rightarrow>
   matrix \<Rightarrow> matrix \<Rightarrow> matrix \<Rightarrow> 'a::ring machine \<Rightarrow> (error + 'a machine) option"
where
  "mul_decompose recursion a b c w =
     (let m = ceil_divide (m_n c);
          (sum0, w) = matrix_new m w;
          (sum1, w) = matrix_new m w;
          (m0, w) = matrix_new m w
      in
      then_R (Some (sum_v1 (matrix_sub a 0 0) (matrix_sub a 1 1) sum0 w)) (\<lambda>w.
      then_R (Some (sum_v1 (matrix_sub b 0 0) (matrix_sub b 1 1) sum1 w)) (\<lambda>w.
      then_R (recursion sum0 sum1 m0 w) (\<lambda>w.

      let (m1, w) = matrix_new m w in
      then_R (Some (sum_v1 (matrix_sub a 1 0) (matrix_sub a 1 1) sum0 w)) (\<lambda>w.
      then_R (recursion sum0 (matrix_sub b 0 0) m1 w) (\<lambda>w.

      let (m2, w) = matrix_new m w in
      then_R (Some (sub_v1 (matrix_sub b 0 1) (matrix_sub b 1 1) sum1 w)) (\<lambda>w.
      then_R (recursion (matrix_sub a 0 0) sum1 m2 w) (\<lambda>w.

      let (m3, w) = matrix_new m w in
      then_R (Some (sub_v1 (matrix_sub b 1 0) (matrix_sub b 0 0) sum1 w)) (\<lambda>w.
      then_R (recursion (matrix_sub a 1 1) sum1 m3 w) (\<lambda>w.

      let (m4, w) = matrix_new m w in
      then_R (Some (sum_v1 (matrix_sub a 0 0) (matrix_sub a 0 1) sum0 w)) (\<lambda>w.
      then_R (recursion sum0 (matrix_sub b 1 1) m4 w) (\<lambda>w.

      let (m5, w) = matrix_new m w in
      then_R (Some (sub_v1 (matrix_sub a 1 0) (matrix_sub a 0 0) sum0 w)) (\<lambda>w.
      then_R (Some (sum_v1 (matrix_sub b 0 0) (matrix_sub b 0 1) sum1 w)) (\<lambda>w.
      then_R (recursion sum0 sum1 m5 w) (\<lambda>w.

      let (m6, w) = matrix_new m w in
      then_R (Some (sub_v1 (matrix_sub a 0 1) (matrix_sub a 1 1) sum0 w)) (\<lambda>w.
      then_R (Some (sum_v1 (matrix_sub b 1 0) (matrix_sub b 1 1) sum1 w)) (\<lambda>w.
      then_R (recursion sum0 sum1 m6 w) (\<lambda>w.

      let c00 = matrix_sub c 0 0; c10 = matrix_sub c 1 0;
          c01 = matrix_sub c 0 1; c11 = matrix_sub c 1 1 in
      then_R (Some (sum_v1 m0 m3 c00 w)) (\<lambda>w.
      then_R (Some (sum_v1 c00 m6 c00 w)) (\<lambda>w.
      then_R (Some (sub_v1 c00 m4 c00 w)) (\<lambda>w.
      then_R (Some (sum_v1 m2 m4 c01 w)) (\<lambda>w.
      then_R (Some (sum_v1 m1 m3 c10 w)) (\<lambda>w.
      then_R (Some (sum_v1 m0 m2 c11 w)) (\<lambda>w.
      then_R (Some (sum_v1 c11 m5 c11 w)) (\<lambda>w.
      Some (sub_v1 c11 m1 c11 w))))))))))))))))))))))))))"

lemma mul_decompose_mono [partial_function_mono]:
  assumes "\<And>a b c w. mono_option (\<lambda>f. R f a b c w)"
  shows "mono_option (\<lambda>f. mul_decompose (R f) a b c w)"
  unfolding mul_decompose_def Let_def case_prod_beta
  by (intro then_R_mono option.const_mono assms)



section \<open>Vocabulary of the proofs\<close>

text \<open>A heap with two buffers of dimension 2, for the concrete examples.\<close>

definition demo_heap :: "int heap" where
  "demo_heap = \<lparr>cells = (\<lambda>_. [])(0 := [1, 2, 3, 4], 1 := [1, 2, 3, 5]), next_addr = 2\<rparr>"

definition demo_x :: matrix_data where
  "demo_x = \<lparr>md_dimension = 2, md_data = 0\<rparr>"

definition demo_y :: matrix_data where
  "demo_y = \<lparr>md_dimension = 2, md_data = 1\<rparr>"

definition buf :: "submatrix \<Rightarrow> nat" where
  "buf s = md_data (sm_data s)"

definition stride :: "submatrix \<Rightarrow> int" where
  "stride s = md_dimension (sm_data s)"

definition index_of :: "submatrix \<Rightarrow> int \<Rightarrow> int \<Rightarrow> int" where
  "index_of s x y = x + sm_i s + stride s * (y + sm_j s)"

definition in_sq :: "int \<Rightarrow> int \<Rightarrow> int \<Rightarrow> bool" where
  "in_sq n x y \<longleftrightarrow> 0 \<le> x \<and> x < n \<and> 0 \<le> y \<and> y < n"

definition rd :: "'a::zero heap \<Rightarrow> submatrix \<Rightarrow> int \<Rightarrow> int \<Rightarrow> 'a" where
  "rd h s x y =
     (if submatrix_in_bounds h s x y then cells h (buf s) ! nat (index_of s x y) else 0)"

definition wr :: "'a heap \<Rightarrow> submatrix \<Rightarrow> int \<Rightarrow> int \<Rightarrow> 'a \<Rightarrow> 'a heap" where
  "wr h s x y v =
     (if submatrix_in_bounds h s x y
      then h\<lparr>cells := (cells h)(buf s := (cells h (buf s))[nat (index_of s x y) := v])\<rparr>
      else h)"

definition fp :: "'a heap \<Rightarrow> submatrix \<Rightarrow> (nat \<times> nat) set" where
  "fp h s = {(buf s, nat (index_of s x y)) | x y. submatrix_in_bounds h s x y}"

definition frame :: "(nat \<times> nat) set \<Rightarrow> 'a heap \<Rightarrow> 'a heap \<Rightarrow> bool" where
  "frame F h h' \<longleftrightarrow>
     (\<forall>p. length (cells h' p) = length (cells h p)) \<and> next_addr h' = next_addr h \<and>
     (\<forall>p k. (p, k) \<notin> F \<longrightarrow> cells h' p ! k = cells h p ! k)"

definition solid :: "'a heap \<Rightarrow> submatrix \<Rightarrow> bool" where
  "solid h s \<longleftrightarrow>
     0 \<le> sm_i s \<and> 0 \<le> sm_j s \<and> 0 \<le> stride s \<and>
     sm_i s + sm_dimension s \<le> stride s \<and> sm_j s + sm_dimension s \<le> stride s \<and>
     int (length (cells h (buf s))) = stride s * stride s"

definition upd :: "submatrix \<Rightarrow> (int \<Rightarrow> int \<Rightarrow> 'a) \<Rightarrow> (int \<times> int) set \<Rightarrow> 'a::zero heap \<Rightarrow> 'a heap \<Rightarrow> bool" where
  "upd c g P h0 h \<longleftrightarrow>
     frame (fp h0 c) h0 h \<and>
     (\<forall>x y. in_sq (sm_dimension c) x y \<longrightarrow> rd h c x y = (if (x, y) \<in> P then g x y else rd h0 c x y))"

definition assign_all :: "submatrix \<Rightarrow> ('a heap \<Rightarrow> int \<Rightarrow> int \<Rightarrow> 'a) \<Rightarrow> 'a::zero heap \<Rightarrow> 'a heap" where
  "assign_all c f =
     fold (\<lambda>j. fold (\<lambda>i h. wr h c i j (f h i j)) [0 .. sm_dimension c - 1]) [0 .. sm_dimension c - 1]"

definition linear_step :: "submatrix \<Rightarrow> submatrix \<Rightarrow> submatrix \<Rightarrow> int \<Rightarrow> 'a::ring heap \<Rightarrow> 'a heap" where
  "linear_step a b c k =
     fold (\<lambda>i h. fold (\<lambda>j h'. wr h' c i j (rd h' c i j + rd h a i k * rd h' b k j))
                    [0 .. sm_dimension c - 1] h)
          [0 .. sm_dimension c - 1]"

definition pmul :: "int \<Rightarrow> (int \<Rightarrow> int \<Rightarrow> 'a) \<Rightarrow> (int \<Rightarrow> int \<Rightarrow> 'a) \<Rightarrow> int \<Rightarrow> int \<Rightarrow> 'a::ring" where
  "pmul n X Y x y = (if in_sq n x y then \<Sum>k\<in>{0..<n}. X x k * Y k y else 0)"

datatype slot =
  QA00 | QA01 | QA10 | QA11 | QB00 | QB01 | QB10 | QB11 |
  QC00 | QC01 | QC10 | QC11 | QM | QSR | Qsum0 | Qsum1

datatype owner = OwnA | OwnB | OwnC | OwnS

fun owner_of :: "slot \<Rightarrow> owner" where
  "owner_of QA00 = OwnA" | "owner_of QA01 = OwnA" | "owner_of QA10 = OwnA" | "owner_of QA11 = OwnA"
| "owner_of QB00 = OwnB" | "owner_of QB01 = OwnB" | "owner_of QB10 = OwnB" | "owner_of QB11 = OwnB"
| "owner_of QC00 = OwnC" | "owner_of QC01 = OwnC" | "owner_of QC10 = OwnC" | "owner_of QC11 = OwnC"
| "owner_of QM = OwnS" | "owner_of QSR = OwnS" | "owner_of Qsum0 = OwnS" | "owner_of Qsum1 = OwnS"

fun quad_x :: "slot \<Rightarrow> int" where
  "quad_x QA00 = 0" | "quad_x QA01 = 0" | "quad_x QA10 = 1" | "quad_x QA11 = 1"
| "quad_x QB00 = 0" | "quad_x QB01 = 0" | "quad_x QB10 = 1" | "quad_x QB11 = 1"
| "quad_x QC00 = 0" | "quad_x QC01 = 0" | "quad_x QC10 = 1" | "quad_x QC11 = 1"
| "quad_x QM = 0" | "quad_x QSR = 0" | "quad_x Qsum0 = 1" | "quad_x Qsum1 = 1"

fun quad_y :: "slot \<Rightarrow> int" where
  "quad_y QA00 = 0" | "quad_y QA01 = 1" | "quad_y QA10 = 0" | "quad_y QA11 = 1"
| "quad_y QB00 = 0" | "quad_y QB01 = 1" | "quad_y QB10 = 0" | "quad_y QB11 = 1"
| "quad_y QC00 = 0" | "quad_y QC01 = 1" | "quad_y QC10 = 0" | "quad_y QC11 = 1"
| "quad_y QM = 0" | "quad_y QSR = 1" | "quad_y Qsum0 = 0" | "quad_y Qsum1 = 1"

text \<open>The four parent views of a call, and the view of a slot.\<close>

type_synonym views = "submatrix \<times> submatrix \<times> submatrix \<times> submatrix"

fun parent :: "views \<Rightarrow> owner \<Rightarrow> submatrix" where
  "parent (A, B, C, S) OwnA = A"
| "parent (A, B, C, S) OwnB = B"
| "parent (A, B, C, S) OwnC = C"
| "parent (A, B, C, S) OwnS = S"

definition view :: "views \<Rightarrow> slot \<Rightarrow> submatrix" where
  "view V sl = submatrix_sub (parent V (owner_of sl)) (quad_x sl) (quad_y sl)"

definition writable :: "slot \<Rightarrow> bool" where
  "writable sl \<longleftrightarrow> owner_of sl = OwnC \<or> owner_of sl = OwnS"

definition pre :: "int \<Rightarrow> views \<Rightarrow> 'a heap \<Rightarrow> bool" where
  "pre n V h \<longleftrightarrow>
     (\<forall>w. sm_dimension (parent V w) = n \<and> 0 \<le> stride (parent V w)) \<and>
     solid h (parent V OwnC) \<and> solid h (parent V OwnS) \<and>
     (\<forall>w. w \<noteq> OwnC \<longrightarrow> fp h (parent V w) \<inter> fp h (parent V OwnC) = {}) \<and>
     (\<forall>w. w \<noteq> OwnS \<longrightarrow> fp h (parent V w) \<inter> fp h (parent V OwnS) = {})"

text \<open>Matrices as functions of two coordinates, with the block of a quadrant.\<close>

type_synonym 'a mat = "int \<Rightarrow> int \<Rightarrow> 'a"

definition padd :: "'a::ring mat \<Rightarrow> 'a mat \<Rightarrow> 'a mat" where
  "padd X Y = (\<lambda>x y. X x y + Y x y)"

definition psub :: "'a::ring mat \<Rightarrow> 'a mat \<Rightarrow> 'a mat" where
  "psub X Y = (\<lambda>x y. X x y - Y x y)"

definition pzero :: "'a::ring mat" where
  "pzero = (\<lambda>x y. 0)"

definition blk :: "int \<Rightarrow> 'a::zero mat \<Rightarrow> int \<Rightarrow> int \<Rightarrow> 'a mat" where
  "blk m X qx qy = (\<lambda>x y. if in_sq m x y then X (x + qx * m) (y + qy * m) else 0)"

text \<open>
  The contents of the seven views that one level of the recursion assigns and reads
  again: the four output quadrants, the product slot and the two sum slots.
\<close>

type_synonym 'a regs = "'a mat \<times> 'a mat \<times> 'a mat \<times> 'a mat \<times> 'a mat \<times> 'a mat \<times> 'a mat"

fun sval :: "(slot \<Rightarrow> 'a mat) \<Rightarrow> 'a regs \<Rightarrow> slot \<Rightarrow> 'a mat" where
  "sval base (c00, c01, c10, c11, mm, s0, s1) sl =
     (case sl of QC00 \<Rightarrow> c00 | QC01 \<Rightarrow> c01 | QC10 \<Rightarrow> c10 | QC11 \<Rightarrow> c11
               | QM \<Rightarrow> mm | Qsum0 \<Rightarrow> s0 | Qsum1 \<Rightarrow> s1 | _ \<Rightarrow> base sl)"

fun supd :: "'a regs \<Rightarrow> slot \<Rightarrow> 'a mat \<Rightarrow> 'a regs" where
  "supd (c00, c01, c10, c11, mm, s0, s1) sl v =
     (case sl of QC00 \<Rightarrow> (v, c01, c10, c11, mm, s0, s1)
               | QC01 \<Rightarrow> (c00, v, c10, c11, mm, s0, s1)
               | QC10 \<Rightarrow> (c00, c01, v, c11, mm, s0, s1)
               | QC11 \<Rightarrow> (c00, c01, c10, v, mm, s0, s1)
               | QM \<Rightarrow> (c00, c01, c10, c11, v, s0, s1)
               | Qsum0 \<Rightarrow> (c00, c01, c10, c11, mm, v, s1)
               | Qsum1 \<Rightarrow> (c00, c01, c10, c11, mm, s0, v)
               | _ \<Rightarrow> (c00, c01, c10, c11, mm, s0, s1))"

definition st :: "views \<Rightarrow> 'a::zero heap \<Rightarrow> 'a heap \<Rightarrow> 'a regs \<Rightarrow> bool" where
  "st V h0 h r \<longleftrightarrow>
     frame (fp h0 (parent V OwnC) \<union> fp h0 (parent V OwnS)) h0 h \<and>
     (\<forall>sl. sl \<noteq> QSR \<longrightarrow> rd h (view V sl) = sval (\<lambda>s. rd h0 (view V s)) r sl)"

text \<open>
  Two heaps with four buffers of dimension 2 (inputs at 0 and 1, output at 2, scratch
  at 3) that differ in the output and the scratch buffer only, and the full views of the
  four buffers.
\<close>

definition quad_heap :: "int list \<Rightarrow> int list \<Rightarrow> int heap" where
  "quad_heap cs ss =
     \<lparr>cells = (\<lambda>_. [])(0 := [1, 3, 2, 4], 1 := [5, 7, 6, 8], 2 := cs, 3 := ss), next_addr = 4\<rparr>"

definition full_view :: "nat \<Rightarrow> submatrix" where
  "full_view p = submatrix_new \<lparr>md_dimension = 2, md_data = p\<rparr>"

text \<open>
  A view of side 2 of a buffer with a single cell, at address 2 of the demo heap: three
  of its four cells lie outside the buffer.
\<close>

definition small_heap :: "int heap" where
  "small_heap = demo_heap\<lparr>cells := (cells demo_heap)(2 := [0]), next_addr := 3\<rparr>"

definition wide_view :: submatrix where
  "wide_view = (submatrix_new \<lparr>md_dimension = 1, md_data = 2\<rparr>)\<lparr>sm_dimension := 2\<rparr>"

text \<open>
  A buffer of dimension 3 with entries 0 and 1, as the random mode of \<open>main\<close> fills its
  inputs, and the view that \<open>strassen_mul\<close> makes of it for an output of side 4 (the padded
  dimension for the cutoff 1); the view of the earlier version on the same buffer.
\<close>

definition nine_heap :: "int heap" where
  "nine_heap = \<lparr>cells = (\<lambda>_. [])(0 := [1, 0, 1, 1, 0, 0, 1, 1, 0]), next_addr = 1\<rparr>"

definition padded_view :: submatrix where
  "padded_view = (submatrix_new \<lparr>md_dimension = 3, md_data = 0\<rparr>)\<lparr>sm_dimension := 4\<rparr>"

definition nine_matrix :: matrix where
  "nine_matrix = \<lparr>m_i = 0, m_j = 0, m_n = 3, m_data = \<lparr>v1_data = 0, v1_N = 3\<rparr>\<rparr>"






section \<open>The padding calculator\<close>

lemma ceil_divide_nonneg: "0 \<le> x \<Longrightarrow> ceil_divide x = (x + 1) div 2"
  unfolding ceil_divide_def signed_divide_int_def signed_modulo_int_def
  by (cases "x = 0") (auto simp: sgn_if, presburger+)

lemma ceil_divide_le_1: "x \<le> 1 \<Longrightarrow> ceil_divide x \<le> 1"
proof (cases "0 \<le> x")
  case True
  assume "x \<le> 1"
  with True show ?thesis by (simp add: ceil_divide_nonneg)
next
  case False
  then have neg: "x < 0" by simp
  then have "ceil_divide x = - ((- x) div 2) + (if (- x) mod 2 \<noteq> 0 then 1 else 0)"
    by (simp add: ceil_divide_def signed_divide_int_def signed_modulo_int_def sgn_if)
  with neg show ?thesis by (simp split: if_splits)
qed

lemma ceil_divide_less: "2 \<le> x \<Longrightarrow> ceil_divide x < x"
  by (simp add: ceil_divide_nonneg)

lemma ceil_divide_pos: "1 \<le> x \<Longrightarrow> 1 \<le> ceil_divide x"
  by (simp add: ceil_divide_nonneg)

lemma padding_size_loop_halvings:
  assumes "1 \<le> cutoff"
  shows "\<exists>k. (ceil_divide ^^ k) d \<le> cutoff \<and> (\<forall>k'<k. cutoff < (ceil_divide ^^ k') d) \<and>
             padding_size_loop cutoff p d = Some (p + int k, (ceil_divide ^^ k) d)"
proof (induction "nat d" arbitrary: d p rule: less_induct)
  case less
  show ?case
  proof (cases "cutoff < d")
    case False
    then have "padding_size_loop cutoff p d = Some (p, d)"
      by (subst padding_size_loop.simps) simp
    with False show ?thesis
      by (intro exI [of _ 0]) simp
  next
    case True
    with assms have d2: "2 \<le> d" by simp
    have "nat (ceil_divide d) < nat d"
      using ceil_divide_less [OF d2] d2 by linarith
    from less [OF this, of "p + 1"] obtain k where
      k: "(ceil_divide ^^ k) (ceil_divide d) \<le> cutoff"
         "\<forall>k'<k. cutoff < (ceil_divide ^^ k') (ceil_divide d)"
         "padding_size_loop cutoff (p + 1) (ceil_divide d) =
            Some (p + 1 + int k, (ceil_divide ^^ k) (ceil_divide d))"
      by blast
    have unfold: "padding_size_loop cutoff p d = padding_size_loop cutoff (p + 1) (ceil_divide d)"
      using True by (subst padding_size_loop.simps) simp
    have below: "cutoff < (ceil_divide ^^ k') d" if "k' < Suc k" for k'
    proof (cases k')
      case 0
      with True show ?thesis by simp
    next
      case (Suc m)
      with that k(2) show ?thesis by (simp add: funpow_swap1)
    qed
    show ?thesis
      using k(1) k(3) below unfold
      by (intro exI [of _ "Suc k"]) (simp add: funpow_swap1)
  qed
qed

lemma wrap32_id: "- 2147483648 \<le> x \<Longrightarrow> x < 2147483648 \<Longrightarrow> wrap32 x = x"
  by (simp add: wrap32_def)

lemma halving_nonneg: "0 \<le> x \<Longrightarrow> 0 \<le> (ceil_divide ^^ k) x"
  by (induction k) (simp_all add: ceil_divide_nonneg)

lemma halving_upper:
  assumes "0 \<le> x"
  shows "(ceil_divide ^^ k) x * 2 ^ k \<le> x + 2 ^ k - 1"
proof (induction k)
  case 0
  show ?case by simp
next
  case (Suc k)
  let ?y = "(ceil_divide ^^ k) x"
  have y: "0 \<le> ?y" using assms by (rule halving_nonneg)
  have "2 * ceil_divide ?y \<le> ?y + 1" using y by (simp add: ceil_divide_nonneg)
  then have "2 * ceil_divide ?y * 2 ^ k \<le> (?y + 1) * 2 ^ k"
    by (intro mult_right_mono) simp_all
  also have "\<dots> = ?y * 2 ^ k + 2 ^ k" by (simp add: algebra_simps)
  also have "\<dots> \<le> x + 2 ^ k - 1 + 2 ^ k" using Suc by simp
  finally show ?case by (simp add: mult_ac)
qed

lemma halvings_below:
  assumes "0 \<le> x" and "2 \<le> (ceil_divide ^^ j) x"
  shows "(2::int) ^ j < x"
proof -
  have "2 * 2 ^ j \<le> (ceil_divide ^^ j) x * 2 ^ j"
    using assms(2) by (intro mult_right_mono) simp_all
  moreover note halving_upper [OF assms(1), of j]
  ultimately show ?thesis by linarith
qed

lemma padded_in_range:
  assumes "1 \<le> N" "N \<le> 1073741824" "1 \<le> C"
    and "\<forall>k'<k. C < (ceil_divide ^^ k') N"
  shows "k \<le> 30 \<and> 0 \<le> (ceil_divide ^^ k) N * 2 ^ k \<and> (ceil_divide ^^ k) N * 2 ^ k < 2147483648"
proof -
  have N0: "0 \<le> N" using assms(1) by simp
  have k: "k \<le> 30"
  proof (cases k)
    case 0
    then show ?thesis by simp
  next
    case (Suc j)
    with assms(3,4) have "2 \<le> (ceil_divide ^^ j) N" by force
    from halvings_below [OF N0 this] assms(2) have "(2::int) ^ j < 2 ^ 30" by simp
    then have "j < 30" by (simp only: power_strict_increasing_iff [of 2] one_less_numeral_iff semiring_norm)
    with Suc show ?thesis by simp
  qed
  then have "(2::int) ^ k \<le> 2 ^ 30" by (intro power_increasing) simp_all
  with halving_upper [OF N0, of k] assms(2)
  have "(ceil_divide ^^ k) N * 2 ^ k < 2147483648" by simp
  moreover have "0 \<le> (ceil_divide ^^ k) N * 2 ^ k"
    using halving_nonneg [OF N0, of k] by simp
  ultimately show ?thesis using k by simp
qed

lemma padding_size_exact:
  assumes "1 \<le> N" "N \<le> 1073741824" "1 \<le> C"
  shows "\<exists>k. (ceil_divide ^^ k) N \<le> C \<and> (\<forall>k'<k. C < (ceil_divide ^^ k') N) \<and>
             padding_size N C = Some ((ceil_divide ^^ k) N * 2 ^ k)"
proof -
  from padding_size_loop_halvings [OF assms(3), of N 0] obtain k where
    k: "(ceil_divide ^^ k) N \<le> C" "\<forall>k'<k. C < (ceil_divide ^^ k') N"
       "padding_size_loop C 0 N = Some (int k, (ceil_divide ^^ k) N)"
    by auto
  from padded_in_range [OF assms k(2)] have r: "k \<le> 30"
    "0 \<le> (ceil_divide ^^ k) N * 2 ^ k" "(ceil_divide ^^ k) N * 2 ^ k < 2147483648"
    by simp_all
  from r(1) have "(2::int) ^ k \<le> 2 ^ 30" by (intro power_increasing) simp_all
  then have "(2::int) ^ k \<le> 1073741824" by simp
  moreover have "(0::int) \<le> 2 ^ k" by simp
  ultimately have "wrap32 (2 ^ k) = 2 ^ k" by (intro wrap32_id) linarith+
  moreover have "wrap32 ((ceil_divide ^^ k) N * 2 ^ k) = (ceil_divide ^^ k) N * 2 ^ k"
    using r(2,3) by (intro wrap32_id) simp_all
  ultimately have "padding_size N C = Some ((ceil_divide ^^ k) N * 2 ^ k)"
    using k(3) by (simp add: padding_size_def push_bit_eq_mult)
  with k(1,2) show ?thesis by blast
qed

text \<open>
  Claim C3.  For a true dimension \<open>N \<ge> 1\<close> and a cutoff \<open>C \<ge> 1\<close> the padding calculator
  returns, and its result is \<open>final_size * 2^k\<close>, where \<open>k\<close> is the number of ceiling
  halvings that bring \<open>N\<close> down to a value \<open>final_size \<le> C\<close> (after fewer halvings the
  value still exceeds \<open>C\<close>).  When \<open>N \<le> C\<close> the result is \<open>N\<close>, and for \<open>N = 5\<close>,
  \<open>C = 2\<close> it is 8.  The dimension is at most \<open>2^30\<close>, so that the result fits the 32-bit
  \<open>int\<close> that the function returns; \<open>main\<close> calls the function with the dimension of
  the buffers it has allocated, which is far below.
\<close>

theorem padding_size_halvings:
  assumes "1 \<le> N" and "N \<le> 1073741824" and "1 \<le> C"
  shows "(\<exists>k. (ceil_divide ^^ k) N \<le> C \<and> (\<forall>k'<k. C < (ceil_divide ^^ k') N) \<and>
              padding_size N C = Some ((ceil_divide ^^ k) N * 2 ^ k)) \<and>
         (N \<le> C \<longrightarrow> padding_size N C = Some N) \<and>
         padding_size 5 2 = Some 8"
proof (intro conjI impI)
  show "\<exists>k. (ceil_divide ^^ k) N \<le> C \<and> (\<forall>k'<k. C < (ceil_divide ^^ k') N) \<and>
              padding_size N C = Some ((ceil_divide ^^ k) N * 2 ^ k)"
    using assms by (rule padding_size_exact)
next
  assume "N \<le> C"
  then have "padding_size_loop C 0 N = Some (0, N)"
    by (simp add: padding_size_loop.simps)
  moreover have "wrap32 1 = 1" "wrap32 N = N"
    using assms(1,2) by (simp_all add: wrap32_id)
  ultimately show "padding_size N C = Some N"
    by (simp add: padding_size_def)
next
  have c5: "ceil_divide 5 = 3" and c3: "ceil_divide 3 = 2"
    by (simp_all add: ceil_divide_nonneg)
  have "padding_size_loop 2 0 5 = Some (2, 2)"
    by (simp add: padding_size_loop.simps [of 2 0 5] padding_size_loop.simps [of 2 1 3]
        padding_size_loop.simps [of 2 2 2] c5 c3)
  then show "padding_size 5 2 = Some 8"
    by (simp add: padding_size_def wrap32_def)
qed

theorem padding_size_halvings_witness:
  "(1::int) \<le> 5 \<and> (5::int) \<le> 1073741824 \<and> (1::int) \<le> 2 \<and>
   (\<exists>k. (ceil_divide ^^ k) 5 \<le> 2 \<and> (\<forall>k'<k. 2 < (ceil_divide ^^ k') 5) \<and>
        padding_size 5 2 = Some ((ceil_divide ^^ k) 5 * 2 ^ k))"
proof -
  have h: "(1::int) \<le> 5" "(5::int) \<le> 1073741824" "(1::int) \<le> 2" by simp_all
  show ?thesis using h padding_size_halvings [OF h] by blast
qed

text \<open>
  The bound on the dimension is needed.  From \<open>2^30 + 1\<close> it takes 31 halvings to reach
  the cutoff 1, and \<open>1 * (1 << 31)\<close> is the least 32-bit \<open>int\<close>, not \<open>2^31\<close>.
\<close>

lemma padding_size_out_of_range:
  "padding_size 1073741825 1 = Some (- 2147483648)"
  by code_simp

section \<open>Quadrants, reads and comparison of views\<close>

text \<open>
  Claim C6.  For a view of side \<open>n \<ge> 0\<close> and any \<open>qx\<close>, \<open>qy\<close>, the view \<open>sub(qx, qy)\<close> has the
  side \<open>\<lceil>n / 2\<rceil>\<close>, which is \<open>(n + 1) div 2\<close>, the origin of the parent shifted by
  \<open>(qx * \<lceil>n / 2\<rceil>, qy * \<lceil>n / 2\<rceil>)\<close>, and the buffer of the parent.  Twice that side is at
  least \<open>n\<close>, so the four quadrants cover the parent, odd-sided or not: every cell \<open>(x, y)\<close>
  of the parent is the cell \<open>(x', y')\<close> of one of the quadrants \<open>sub(ux, uy)\<close> with \<open>ux\<close>, \<open>uy\<close>
  in \<open>{0, 1}\<close>, at the same buffer coordinates, and reading or assigning it through the
  quadrant is reading or assigning it through the parent.
\<close>

theorem submatrix_sub_quadrant:
  assumes "0 \<le> sm_dimension s"
  shows "sm_dimension (submatrix_sub s qx qy) = (sm_dimension s + 1) div 2 \<and>
         sm_dimension s \<le> 2 * sm_dimension (submatrix_sub s qx qy) \<and>
         sm_i (submatrix_sub s qx qy) = sm_i s + qx * ((sm_dimension s + 1) div 2) \<and>
         sm_j (submatrix_sub s qx qy) = sm_j s + qy * ((sm_dimension s + 1) div 2) \<and>
         sm_data (submatrix_sub s qx qy) = sm_data s \<and>
         (\<forall>x y. 0 \<le> x \<and> x < sm_dimension s \<and> 0 \<le> y \<and> y < sm_dimension s \<longrightarrow>
            (\<exists>ux\<in>{0, 1}. \<exists>uy\<in>{0, 1}. \<exists>x' y'.
               0 \<le> x' \<and> x' < sm_dimension (submatrix_sub s ux uy) \<and>
               0 \<le> y' \<and> y' < sm_dimension (submatrix_sub s ux uy) \<and>
               x' + sm_i (submatrix_sub s ux uy) = x + sm_i s \<and>
               y' + sm_j (submatrix_sub s ux uy) = y + sm_j s \<and>
               (\<forall>h :: 'a::zero heap. submatrix_at h (submatrix_sub s ux uy) x' y' = submatrix_at h s x y) \<and>
               (\<forall>(h :: 'a heap) v. submatrix_assign h (submatrix_sub s ux uy) x' y' v = submatrix_assign h s x y v)))"
proof -
  define n where "n = sm_dimension s"
  define d where "d = (n + 1) div 2"
  have cd: "ceil_divide n = d"
    using assms by (simp add: ceil_divide_nonneg n_def d_def)
  have fields: "sm_dimension (submatrix_sub s ux uy) = d"
    "sm_i (submatrix_sub s ux uy) = sm_i s + ux * d"
    "sm_j (submatrix_sub s ux uy) = sm_j s + uy * d"
    "sm_data (submatrix_sub s ux uy) = sm_data s" for ux uy
    using cd by (simp_all add: submatrix_sub_def Let_def n_def)
  have n2: "n \<le> 2 * d" by (simp add: d_def)
  have cover: "\<exists>ux\<in>{0, 1}. \<exists>uy\<in>{0, 1}. \<exists>x' y'.
               0 \<le> x' \<and> x' < sm_dimension (submatrix_sub s ux uy) \<and>
               0 \<le> y' \<and> y' < sm_dimension (submatrix_sub s ux uy) \<and>
               x' + sm_i (submatrix_sub s ux uy) = x + sm_i s \<and>
               y' + sm_j (submatrix_sub s ux uy) = y + sm_j s \<and>
               (\<forall>h :: 'a::zero heap. submatrix_at h (submatrix_sub s ux uy) x' y' = submatrix_at h s x y) \<and>
               (\<forall>(h :: 'a heap) v. submatrix_assign h (submatrix_sub s ux uy) x' y' v = submatrix_assign h s x y v)"
    if xy: "0 \<le> x" "x < n" "0 \<le> y" "y < n" for x y
  proof -
    define ux :: int where "ux = (if x < d then 0 else 1)"
    define uy :: int where "uy = (if y < d then 0 else 1)"
    have u: "ux \<in> {0, 1}" "uy \<in> {0, 1}" by (simp_all add: ux_def uy_def)
    have x': "0 \<le> x - ux * d" "x - ux * d < d" "0 \<le> y - uy * d" "y - uy * d < d"
      using xy n2 by (auto simp: ux_def uy_def)
    have rd: "submatrix_at h (submatrix_sub s ux uy) (x - ux * d) (y - uy * d) = submatrix_at h s x y"
      for h :: "'a heap"
      using xy x' by (simp add: submatrix_at_def submatrix_in_bounds_def fields n_def [symmetric])
    have wr: "submatrix_assign h (submatrix_sub s ux uy) (x - ux * d) (y - uy * d) v = submatrix_assign h s x y v"
      for h :: "'a heap" and v
      using xy x' by (simp add: submatrix_assign_def submatrix_in_bounds_def fields n_def [symmetric])
    show ?thesis
      using u x' rd wr
      by (intro bexI [of _ ux] bexI [of _ uy] exI [of _ "x - ux * d"] exI [of _ "y - uy * d"])
         (simp_all add: fields)
  qed
  show ?thesis
    using n2 cover by (simp add: fields n_def [symmetric] d_def [symmetric])
qed

lemma index_in_square:
  fixes gx gy D :: int
  assumes "0 \<le> gx" "gx < D" "0 \<le> gy" "gy < D"
  shows "0 \<le> gx + D * gy \<and> gx + D * gy < D * D"
proof -
  have "D * gy \<le> D * (D - 1)"
    using assms by (intro mult_left_mono) simp_all
  then have "gx + D * gy < D * D"
    using assms by (simp add: algebra_simps)
  moreover have "0 \<le> D * gy" using assms by simp
  ultimately show ?thesis using assms by simp
qed

lemma index_past_square:
  fixes gx gy D :: int
  assumes "0 \<le> gx" "0 \<le> D" "D \<le> gy"
  shows "D * D \<le> gx + D * gy"
proof -
  have "D * D \<le> D * gy" using assms by (intro mult_left_mono) simp_all
  with assms show ?thesis by simp
qed

lemmas demo_defs = demo_heap_def demo_x_def demo_y_def submatrix_new_def submatrix_sub_def

text \<open>
  Claim C2 fails on the code.  The bounds test of the buffer, \<open>matrix_data::in_bounds\<close>,
  looks at the linear index \<open>i + dimension * j\<close> only, so a first buffer coordinate at or
  beyond the side of the buffer passes it as long as the index stays inside the vector.
  For a 3 by 3 input and the cutoff 1, \<open>strassen_mul\<close> gives the view of the input buffer
  the side 4 of the padded output.  The local coordinates \<open>(3, 0)\<close> of that view, and
  \<open>(1, 0)\<close> of its quadrant \<open>sub(1, 0)\<close> with origin \<open>(2, 0)\<close>, are the buffer coordinates
  \<open>(3, 0)\<close>, outside \<open>[0, 3) \<times> [0, 3)\<close>: the read returns 1, the content of the buffer cell
  \<open>(0, 1)\<close>, and an assignment of 0 overwrites that cell.  The claim says that the read
  returns 0 and that the assignment changes no cell.  \<open>matrix::at\<close> and \<open>matrix::set\<close> of the
  earlier version test the two coordinates against the side and do so.
\<close>

theorem submatrix_at_row_wrap:
  "sm_i (submatrix_sub padded_view 1 0) = 2 \<and> sm_j (submatrix_sub padded_view 1 0) = 0 \<and>
   sm_dimension (submatrix_sub padded_view 1 0) = 2 \<and>
   md_dimension (sm_data (submatrix_sub padded_view 1 0)) = 3 \<and>
   submatrix_at nine_heap (submatrix_sub padded_view 1 0) 1 0 = Inr 1 \<and>
   submatrix_at nine_heap padded_view 3 0 = Inr 1 \<and>
   md_get nine_heap \<lparr>md_dimension = 3, md_data = 0\<rparr> 0 1 = Inr 1 \<and>
   then_E (submatrix_assign nine_heap (submatrix_sub padded_view 1 0) 1 0 0) (\<lambda>h. Inr (cells h 0)) =
     Inr [1, 0, 1, 0, 0, 0, 1, 1, 0] \<and>
   then_E (submatrix_assign nine_heap padded_view 3 0 0) (\<lambda>h. Inr (cells h 0)) =
     Inr [1, 0, 1, 0, 0, 0, 1, 1, 0] \<and>
   matrix_at nine_heap (matrix_sub nine_matrix 1 0) 1 0 = Inr 0 \<and>
   then_E (matrix_set nine_heap (matrix_sub nine_matrix 1 0) 1 0 0) (\<lambda>h. Inr (cells h 0)) =
     Inr [1, 0, 1, 1, 0, 0, 1, 1, 0]"
  by code_simp

text \<open>
  Claim C10 fails on the code.  \<open>operator==\<close> reads both buffers at \<open>(x, y)\<close> without the
  origins of the views.  The two quadrants \<open>sub(1, 1)\<close> of the full views of the demo buffers
  hold 4 and 5, and the comparison returns true: it compared the buffer cells \<open>(0, 0)\<close>.
\<close>

theorem submatrix_eq_ignores_origin:
  "submatrix_eq demo_heap (submatrix_sub (submatrix_new demo_x) 1 1)
       (submatrix_sub (submatrix_new demo_y) 1 1) = Inr True \<and>
   submatrix_at demo_heap (submatrix_sub (submatrix_new demo_x) 1 1) 0 0 = Inr 4 \<and>
   submatrix_at demo_heap (submatrix_sub (submatrix_new demo_y) 1 1) 0 0 = Inr 5"
  by (simp add: demo_defs Let_def ceil_divide_nonneg md_get_def vector_at_def submatrix_at_def
      submatrix_eq_def submatrix_in_bounds_def md_in_bounds_def then_E_def upto.simps)

section \<open>Reads and writes of a view as total functions\<close>

lemma in_bounds_iff:
  "submatrix_in_bounds h s x y \<longleftrightarrow>
     0 \<le> x + sm_i s \<and> 0 \<le> y + sm_j s \<and>
     index_of s x y < int (length (cells h (buf s))) \<and> in_sq (sm_dimension s) x y"
  by (auto simp: submatrix_in_bounds_def md_in_bounds_def index_of_def buf_def stride_def in_sq_def)

lemma in_bounds_index_nonneg:
  assumes "submatrix_in_bounds h s x y" "0 \<le> stride s"
  shows "0 \<le> index_of s x y"
  using assms by (simp add: in_bounds_iff index_of_def)

lemma submatrix_at_rd:
  "0 \<le> stride s \<Longrightarrow> submatrix_at h s x y = Inr (rd h s x y)"
  using in_bounds_index_nonneg [of h s x y]
  by (auto simp: submatrix_at_def rd_def md_get_def vector_at_def in_bounds_iff
      index_of_def buf_def stride_def)

lemma submatrix_assign_wr:
  "0 \<le> stride s \<Longrightarrow> submatrix_assign h s x y v = Inr (wr h s x y v)"
  using in_bounds_index_nonneg [of h s x y]
  by (auto simp: submatrix_assign_def wr_def md_assign_def vector_assign_def then_E_def
      in_bounds_iff index_of_def buf_def stride_def)

lemma rd_outside: "\<not> in_sq (sm_dimension s) x y \<Longrightarrow> rd h s x y = 0"
  by (simp add: rd_def in_bounds_iff)

section \<open>Footprints and frames\<close>

lemma frame_refl: "frame F h h"
  by (simp add: frame_def)

lemma frame_trans: "frame F h h1 \<Longrightarrow> frame G h1 h2 \<Longrightarrow> frame (F \<union> G) h h2"
  by (simp add: frame_def)

lemma frame_mono: "frame F h h' \<Longrightarrow> F \<subseteq> G \<Longrightarrow> frame G h h'"
  by (auto simp: frame_def)

lemma frame_in_bounds: "frame F h h' \<Longrightarrow> submatrix_in_bounds h' s x y = submatrix_in_bounds h s x y"
  by (simp add: in_bounds_iff frame_def)

lemma frame_fp: "frame F h h' \<Longrightarrow> fp h' s = fp h s"
  by (simp add: fp_def frame_in_bounds)

lemma frame_rd:
  assumes "frame F h h'" "fp h s \<inter> F = {}"
  shows "rd h' s x y = rd h s x y"
proof (cases "submatrix_in_bounds h s x y")
  case True
  then have "(buf s, nat (index_of s x y)) \<in> fp h s" by (auto simp: fp_def)
  with assms(2) have "(buf s, nat (index_of s x y)) \<notin> F" by auto
  with assms(1) True show ?thesis
    by (simp add: rd_def frame_in_bounds [OF assms(1)] frame_def)
next
  case False
  then show ?thesis by (simp add: rd_def frame_in_bounds [OF assms(1)])
qed

lemma frame_wr: "frame (fp h s) h (wr h s x y v)"
proof (cases "submatrix_in_bounds h s x y")
  case True
  have "cells (wr h s x y v) p ! k = cells h p ! k" if "(p, k) \<notin> fp h s" for p k
  proof -
    from that True have "p \<noteq> buf s \<or> k \<noteq> nat (index_of s x y)"
      by (auto simp: fp_def)
    with True show ?thesis by (auto simp: wr_def)
  qed
  with True show ?thesis by (simp add: frame_def wr_def)
next
  case False
  then show ?thesis by (simp add: frame_def wr_def)
qed

section \<open>Views that lie inside their buffer\<close>

lemma frame_solid: "frame F h h' \<Longrightarrow> solid h' s = solid h s"
  by (simp add: solid_def frame_def)

lemma solid_in_bounds:
  assumes "solid h s" "in_sq (sm_dimension s) x y"
  shows "submatrix_in_bounds h s x y"
proof -
  have "0 \<le> x + sm_i s + stride s * (y + sm_j s) \<and>
        x + sm_i s + stride s * (y + sm_j s) < stride s * stride s"
    using assms by (intro index_in_square) (simp_all add: solid_def in_sq_def)
  with assms show ?thesis
    by (simp add: in_bounds_iff index_of_def solid_def in_sq_def)
qed

lemma solid_in_bounds_iff:
  "solid h s \<Longrightarrow> submatrix_in_bounds h s x y \<longleftrightarrow> in_sq (sm_dimension s) x y"
  using solid_in_bounds [of h s x y] by (auto simp: in_bounds_iff)

lemma index_decode:
  fixes a b a' b' D :: int
  assumes "0 \<le> a" "a < D" "0 \<le> a'" "a' < D" "a + D * b = a' + D * b'"
  shows "a = a' \<and> b = b'"
proof -
  have "a = (a + D * b) mod D" using assms(1,2) by simp
  also have "\<dots> = (a' + D * b') mod D" by (simp only: assms(5))
  also have "\<dots> = a'" using assms(3,4) by simp
  finally have "a = a'" .
  with assms show ?thesis by simp
qed

lemma solid_index_inj:
  assumes "solid h s" "in_sq (sm_dimension s) x y" "in_sq (sm_dimension s) x' y'"
    and "nat (index_of s x y) = nat (index_of s x' y')"
  shows "x = x' \<and> y = y'"
proof -
  have nn: "0 \<le> index_of s x y" "0 \<le> index_of s x' y'"
    using assms(1-3) solid_in_bounds [OF assms(1)]
    by (auto intro!: in_bounds_index_nonneg [of h] simp: solid_def)
  with assms(4) have "index_of s x y = index_of s x' y'" by simp
  then have "x + sm_i s + stride s * (y + sm_j s) = x' + sm_i s + stride s * (y' + sm_j s)"
    by (simp add: index_of_def)
  from index_decode [OF _ _ _ _ this] assms(1-3) show ?thesis
    by (simp add: solid_def in_sq_def)
qed

lemma rd_wr_solid:
  assumes "solid h s" "in_sq (sm_dimension s) x y" "in_sq (sm_dimension s) x' y'"
  shows "rd (wr h s x y v) s x' y' = (if x' = x \<and> y' = y then v else rd h s x' y')"
proof -
  have ib: "submatrix_in_bounds h s x y" "submatrix_in_bounds h s x' y'"
    using assms by (simp_all add: solid_in_bounds)
  have ib': "submatrix_in_bounds (wr h s x y v) s x' y'"
    using ib by (simp add: frame_in_bounds [OF frame_wr])
  have lt: "nat (index_of s x y) < length (cells h (buf s))"
    using ib(1) assms(1) in_bounds_index_nonneg [OF ib(1)]
    by (simp add: in_bounds_iff solid_def nat_less_iff)
  show ?thesis
  proof (cases "x' = x \<and> y' = y")
    case True
    with ib ib' lt show ?thesis by (simp add: rd_def wr_def)
  next
    case False
    with solid_index_inj [OF assms(1) assms(3) assms(2)]
    have "nat (index_of s x' y') \<noteq> nat (index_of s x y)" by blast
    with False ib ib' show ?thesis by (auto simp: rd_def wr_def)
  qed
qed

section \<open>Loops that assign every cell of a view\<close>

lemma for_each_pure:
  "(\<And>x s. x \<in> set xs \<Longrightarrow> body x s = Inr (g x s)) \<Longrightarrow> for_each xs body s = Inr (fold g xs s)"
  by (induction xs arbitrary: s) (simp_all add: then_E_def)

lemma upd_init: "upd c g {} h h"
  by (simp add: upd_def frame_refl)

lemma upd_step:
  assumes "solid h0 c" "upd c g P h0 h" "in_sq (sm_dimension c) x y"
  shows "upd c g (insert (x, y) P) h0 (wr h c x y (g x y))"
proof -
  from assms(2) have fr: "frame (fp h0 c) h0 h" by (simp add: upd_def)
  have "frame (fp h0 c \<union> fp h c) h0 (wr h c x y (g x y))"
    using fr frame_wr by (rule frame_trans)
  then have fr': "frame (fp h0 c) h0 (wr h c x y (g x y))"
    by (simp add: frame_fp [OF fr])
  have sol: "solid h c" using assms(1) by (simp add: frame_solid [OF fr])
  show ?thesis
    using assms(2,3) fr' by (auto simp: upd_def rd_wr_solid [OF sol])
qed

lemma inner_upd:
  assumes "solid h0 c"
    and "upd c g P h0 h"
    and "\<And>v. v \<in> set vs \<Longrightarrow> in_sq (sm_dimension c) (px v) (py v)"
    and "\<And>v h' Q. v \<in> set vs \<Longrightarrow> upd c g Q h0 h' \<Longrightarrow> (px v, py v) \<notin> Q \<Longrightarrow>
           F h' v = g (px v) (py v)"
    and "\<And>v. v \<in> set vs \<Longrightarrow> (px v, py v) \<notin> P"
    and "inj_on (\<lambda>v. (px v, py v)) (set vs)" "distinct vs"
  shows "upd c g (P \<union> (\<lambda>v. (px v, py v)) ` set vs) h0
           (fold (\<lambda>v h. wr h c (px v) (py v) (F h v)) vs h)"
  using assms(2-)
proof (induction vs arbitrary: P h)
  case Nil
  then show ?case by simp
next
  case (Cons v vs)
  have Fv: "F h v = g (px v) (py v)"
    by (rule Cons.prems(3) [OF _ Cons.prems(1) Cons.prems(4)]) simp_all
  have step: "upd c g (insert (px v, py v) P) h0 (wr h c (px v) (py v) (g (px v) (py v)))"
    using assms(1) Cons.prems(1) Cons.prems(2) [of v] by (intro upd_step) simp_all
  have fresh: "(px w, py w) \<notin> insert (px v, py v) P" if "w \<in> set vs" for w
  proof -
    from that Cons.prems(6) have "w \<noteq> v" by auto
    with that Cons.prems(5) have "(px w, py w) \<noteq> (px v, py v)"
      by (auto simp: inj_on_def)
    with that Cons.prems(4) [of w] show ?thesis by simp
  qed
  have "upd c g (insert (px v, py v) P \<union> (\<lambda>v. (px v, py v)) ` set vs) h0
           (fold (\<lambda>v h. wr h c (px v) (py v) (F h v)) vs (wr h c (px v) (py v) (g (px v) (py v))))"
    using step Cons.prems fresh
    by (intro Cons.IH) (auto simp: inj_on_def)
  then show ?case by (simp add: Fv)
qed

lemma nest_upd:
  assumes "solid h0 c"
    and "upd c g P h0 h"
    and "\<And>u v. u \<in> set us \<Longrightarrow> v \<in> set vs \<Longrightarrow> in_sq (sm_dimension c) (px u v) (py u v)"
    and "\<And>u v h1 h' Q1 Q. u \<in> set us \<Longrightarrow> v \<in> set vs \<Longrightarrow> upd c g Q1 h0 h1 \<Longrightarrow>
           upd c g Q h0 h' \<Longrightarrow> (px u v, py u v) \<notin> Q \<Longrightarrow>
           F (R h1 u) h' u v = g (px u v) (py u v)"
    and "\<And>u v. u \<in> set us \<Longrightarrow> v \<in> set vs \<Longrightarrow> (px u v, py u v) \<notin> P"
    and "inj_on (\<lambda>(u, v). (px u v, py u v)) (set us \<times> set vs)"
    and "distinct us" "distinct vs"
  shows "upd c g (P \<union> (\<lambda>(u, v). (px u v, py u v)) ` (set us \<times> set vs)) h0
           (fold (\<lambda>u h. fold (\<lambda>v h'. wr h' c (px u v) (py u v) (F (R h u) h' u v)) vs h) us h)"
  using assms(2-)
proof (induction us arbitrary: P h)
  case Nil
  then show ?case by simp
next
  case (Cons u us)
  let ?row = "(\<lambda>v. (px u v, py u v)) ` set vs"
  have inj_row: "inj_on (\<lambda>v. (px u v, py u v)) (set vs)"
    using Cons.prems(5) by (auto simp: inj_on_def)
  have row: "upd c g (P \<union> ?row) h0
               (fold (\<lambda>v h'. wr h' c (px u v) (py u v) (F (R h u) h' u v)) vs h)"
    using assms(1) Cons.prems(1) _ _ _ inj_row Cons.prems(7)
  proof (rule inner_upd)
    fix v assume v: "v \<in> set vs"
    show "in_sq (sm_dimension c) (px u v) (py u v)" using v by (intro Cons.prems(2)) simp_all
    show "(px u v, py u v) \<notin> P" using v by (intro Cons.prems(4)) simp_all
    fix h' Q assume "upd c g Q h0 h'" "(px u v, py u v) \<notin> Q"
    with v Cons.prems(1) show "F (R h u) h' u v = g (px u v) (py u v)"
      by (intro Cons.prems(3)) simp_all
  qed
  have fresh: "(px w v, py w v) \<notin> P \<union> ?row" if "w \<in> set us" "v \<in> set vs" for w v
  proof -
    from that Cons.prems(6) have "w \<noteq> u" by auto
    have "(px w v, py w v) \<noteq> (px u v', py u v')" if "v' \<in> set vs" for v'
      using Cons.prems(5) \<open>w \<noteq> u\<close> \<open>w \<in> set us\<close> \<open>v \<in> set vs\<close> that
      by (auto simp: inj_on_def)
    with that Cons.prems(4) [of w v] show ?thesis by auto
  qed
  have "upd c g (P \<union> ?row \<union> (\<lambda>(u, v). (px u v, py u v)) ` (set us \<times> set vs)) h0
          (fold (\<lambda>u h. fold (\<lambda>v h'. wr h' c (px u v) (py u v) (F (R h u) h' u v)) vs h) us
             (fold (\<lambda>v h'. wr h' c (px u v) (py u v) (F (R h u) h' u v)) vs h))"
    using row
  proof (rule Cons.IH)
    show "inj_on (\<lambda>(u, v). (px u v, py u v)) (set us \<times> set vs)"
      using Cons.prems(5) by (auto simp: inj_on_def)
    show "distinct us" "distinct vs" using Cons.prems(6,7) by simp_all
  qed (use Cons.prems(2,3) fresh in auto)
  moreover have "P \<union> ?row \<union> (\<lambda>(u, v). (px u v, py u v)) ` (set us \<times> set vs) =
        P \<union> (\<lambda>(u, v). (px u v, py u v)) ` (set (u # us) \<times> set vs)"
    by auto
  ultimately show ?case by simp
qed

lemma upd_rd_other:
  assumes "upd c g Q h h'" "a = c \<or> fp h a \<inter> fp h c = {}"
    and "in_sq (sm_dimension c) x y" "(x, y) \<notin> Q"
  shows "rd h' a x y = rd h a x y"
proof (cases "a = c")
  case True
  with assms(1,3,4) show ?thesis by (simp add: upd_def)
next
  case False
  with assms(2) have "fp h a \<inter> fp h c = {}" by simp
  moreover from assms(1) have "frame (fp h c) h h'" by (simp add: upd_def)
  ultimately show ?thesis by (intro frame_rd)
qed

lemma upd_rd_disjoint:
  assumes "upd c g Q h h'" "fp h a \<inter> fp h c = {}"
  shows "rd h' a x y = rd h a x y"
  using assms by (intro frame_rd [of "fp h c"]) (simp_all add: upd_def)

lemma square_image: "(\<lambda>(u, v). (v, u)) ` ({0 .. n - 1} \<times> {0 .. n - 1}) = {(x, y). in_sq n x y}"
  by (auto simp: in_sq_def image_iff)

lemma square_image': "(\<lambda>(u, v). (u, v)) ` ({0 .. n - 1} \<times> {0 .. n - 1}) = {(x, y). in_sq n x y}"
  by (auto simp: in_sq_def)

lemma assign_all_spec:
  assumes "solid h c"
    and "\<And>x y h' Q. in_sq (sm_dimension c) x y \<Longrightarrow> upd c g Q h h' \<Longrightarrow> (x, y) \<notin> Q \<Longrightarrow>
           f h' x y = g x y"
  shows "frame (fp h c) h (assign_all c f h) \<and>
         (\<forall>x y. in_sq (sm_dimension c) x y \<longrightarrow> rd (assign_all c f h) c x y = g x y)"
proof -
  let ?R = "[0 .. sm_dimension c - 1]"
  have "upd c g ({} \<union> (\<lambda>(u, v). (v, u)) ` (set ?R \<times> set ?R)) h
          (fold (\<lambda>u h1. fold (\<lambda>v h'. wr h' c v u ((\<lambda>r h' u v. f h' v u) ((\<lambda>h u. ()) h1 u) h' u v)) ?R h1) ?R h)"
  proof (rule nest_upd [OF assms(1) upd_init])
    show "inj_on (\<lambda>(u, v). (v, u)) (set ?R \<times> set ?R)" by (auto simp: inj_on_def)
  qed (auto simp: in_sq_def intro: assms(2))
  then show ?thesis
    by (simp add: assign_all_def square_image upd_def)
qed

lemma nested_for_each_assign:
  assumes "\<And>h i j. body h i j = Inr (f h i j)" "0 \<le> stride c"
  shows "for_each [0 .. sm_dimension c - 1] (\<lambda>j.
           for_each [0 .. sm_dimension c - 1] (\<lambda>i h. then_E (body h i j) (submatrix_assign h c i j))) h =
         Inr (assign_all c f h)"
  unfolding assign_all_def
  by (intro for_each_pure) (simp add: assms then_E_def submatrix_assign_wr)

lemma sum_m_pure:
  assumes "0 \<le> stride a" "0 \<le> stride b" "0 \<le> stride c"
  shows "sum_m a b c h = Inr (assign_all c (\<lambda>h i j. rd h a i j + rd h b i j) h)"
  unfolding sum_m_def assign_all_def
  by (intro for_each_pure) (simp add: assms then_E_def submatrix_assign_wr submatrix_at_rd)

lemma sub_m_pure:
  assumes "0 \<le> stride a" "0 \<le> stride b" "0 \<le> stride c"
  shows "sub_m a b c h = Inr (assign_all c (\<lambda>h i j. rd h a i j - rd h b i j) h)"
  unfolding sub_m_def assign_all_def
  by (intro for_each_pure) (simp add: assms then_E_def submatrix_assign_wr submatrix_at_rd)

lemma submatrix_clear_pure:
  assumes "0 \<le> stride c"
  shows "submatrix_clear c h = Inr (assign_all c (\<lambda>h i j. 0) h)"
  unfolding submatrix_clear_def assign_all_def
  by (intro for_each_pure) (simp add: assms submatrix_assign_wr)

lemma solid_stride: "solid h c \<Longrightarrow> 0 \<le> stride c"
  by (simp add: solid_def)

lemma sum_m_spec:
  fixes h :: "'a::ring heap"
  assumes "solid h c" "0 \<le> stride a" "0 \<le> stride b"
    and "a = c \<or> fp h a \<inter> fp h c = {}" "b = c \<or> fp h b \<inter> fp h c = {}"
  shows "\<exists>h'. sum_m a b c h = Inr h' \<and> frame (fp h c) h h' \<and>
           (\<forall>x y. in_sq (sm_dimension c) x y \<longrightarrow> rd h' c x y = rd h a x y + rd h b x y)"
proof -
  have "frame (fp h c) h (assign_all c (\<lambda>h i j. rd h a i j + rd h b i j) h) \<and>
         (\<forall>x y. in_sq (sm_dimension c) x y \<longrightarrow>
            rd (assign_all c (\<lambda>h i j. rd h a i j + rd h b i j) h) c x y = rd h a x y + rd h b x y)"
    using assms(1)
  proof (rule assign_all_spec)
    fix x y h' Q
    assume "in_sq (sm_dimension c) x y" "upd c (\<lambda>x y. rd h a x y + rd h b x y) Q h h'" "(x, y) \<notin> Q"
    then show "rd h' a x y + rd h' b x y = rd h a x y + rd h b x y"
      using assms(4,5) by (simp add: upd_rd_other [where c = c and Q = Q])
  qed
  then show ?thesis
    using assms by (simp add: sum_m_pure solid_stride)
qed

lemma sub_m_spec:
  fixes h :: "'a::ring heap"
  assumes "solid h c" "0 \<le> stride a" "0 \<le> stride b"
    and "a = c \<or> fp h a \<inter> fp h c = {}" "b = c \<or> fp h b \<inter> fp h c = {}"
  shows "\<exists>h'. sub_m a b c h = Inr h' \<and> frame (fp h c) h h' \<and>
           (\<forall>x y. in_sq (sm_dimension c) x y \<longrightarrow> rd h' c x y = rd h a x y - rd h b x y)"
proof -
  have "frame (fp h c) h (assign_all c (\<lambda>h i j. rd h a i j - rd h b i j) h) \<and>
         (\<forall>x y. in_sq (sm_dimension c) x y \<longrightarrow>
            rd (assign_all c (\<lambda>h i j. rd h a i j - rd h b i j) h) c x y = rd h a x y - rd h b x y)"
    using assms(1)
  proof (rule assign_all_spec)
    fix x y h' Q
    assume "in_sq (sm_dimension c) x y" "upd c (\<lambda>x y. rd h a x y - rd h b x y) Q h h'" "(x, y) \<notin> Q"
    then show "rd h' a x y - rd h' b x y = rd h a x y - rd h b x y"
      using assms(4,5) by (simp add: upd_rd_other [where c = c and Q = Q])
  qed
  then show ?thesis
    using assms by (simp add: sub_m_pure solid_stride)
qed

lemma submatrix_clear_spec:
  fixes h :: "'a::zero heap"
  assumes "solid h c"
  shows "\<exists>h'. submatrix_clear c h = Inr h' \<and> frame (fp h c) h h' \<and>
           (\<forall>x y. rd h' c x y = 0)"
proof -
  have *: "frame (fp h c) h (assign_all c (\<lambda>h i j. 0) h) \<and>
         (\<forall>x y. in_sq (sm_dimension c) x y \<longrightarrow> rd (assign_all c (\<lambda>h i j. 0) h) c x y = 0)"
    using assms by (rule assign_all_spec) simp
  have "rd (assign_all c (\<lambda>h i j. 0) h) c x y = 0" for x y
    using * rd_outside [of c x y] by (cases "in_sq (sm_dimension c) x y") simp_all
  with * show ?thesis
    using assms by (simp add: submatrix_clear_pure solid_stride)
qed

lemma linear_mul_pure:
  assumes "0 \<le> stride a" "0 \<le> stride b" "0 \<le> stride c"
  shows "linear_mul a b c h = Inr (fold (linear_step a b c) [0 .. sm_dimension c - 1] h)"
  unfolding linear_mul_def linear_step_def
  by (intro for_each_pure | simp add: assms then_E_def submatrix_assign_wr submatrix_at_rd)+

lemma linear_step_spec:
  fixes h :: "'a::ring heap"
  assumes "solid h c" "fp h a \<inter> fp h c = {}" "fp h b \<inter> fp h c = {}"
  shows "frame (fp h c) h (linear_step a b c k h) \<and>
         (\<forall>x y. in_sq (sm_dimension c) x y \<longrightarrow>
            rd (linear_step a b c k h) c x y = rd h c x y + rd h a x k * rd h b k y)"
proof -
  let ?R = "[0 .. sm_dimension c - 1]"
  let ?g = "\<lambda>x y. rd h c x y + rd h a x k * rd h b k y"
  have "upd c ?g ({} \<union> (\<lambda>(u, v). (u, v)) ` (set ?R \<times> set ?R)) h
          (fold (\<lambda>u h1. fold (\<lambda>v h'. wr h' c u v
              ((\<lambda>r h' i j. rd h' c i j + r * rd h' b k j) ((\<lambda>h i. rd h a i k) h1 u) h' u v)) ?R h1) ?R h)"
  proof (rule nest_upd [OF assms(1) upd_init])
    fix u v h1 h' Q1 Q
    assume uv: "u \<in> set ?R" "v \<in> set ?R"
      and u1: "upd c ?g Q1 h h1" and u2: "upd c ?g Q h h'" and nq: "(u, v) \<notin> Q"
    from uv have sq: "in_sq (sm_dimension c) u v" by (simp add: in_sq_def)
    have "rd h' c u v = rd h c u v" using u2 sq nq by (simp add: upd_def)
    moreover have "rd h1 a u k = rd h a u k" using u1 assms(2) by (rule upd_rd_disjoint)
    moreover have "rd h' b k v = rd h b k v" using u2 assms(3) by (rule upd_rd_disjoint)
    ultimately show "rd h' c u v + rd h1 a u k * rd h' b k v = rd h c u v + rd h a u k * rd h b k v"
      by simp
  qed (auto simp: in_sq_def inj_on_def)
  then show ?thesis
    by (auto simp: linear_step_def upd_def in_sq_def)
qed

lemma linear_fold_spec:
  fixes h :: "'a::ring heap"
  assumes "solid h c" "fp h a \<inter> fp h c = {}" "fp h b \<inter> fp h c = {}"
  shows "frame (fp h c) h (fold (linear_step a b c) ks h) \<and>
         (\<forall>x y. in_sq (sm_dimension c) x y \<longrightarrow>
            rd (fold (linear_step a b c) ks h) c x y =
              rd h c x y + (\<Sum>k\<leftarrow>ks. rd h a x k * rd h b k y))"
  using assms
proof (induction ks arbitrary: h)
  case Nil
  then show ?case by (simp add: frame_refl)
next
  case (Cons k ks)
  let ?h1 = "linear_step a b c k h"
  from linear_step_spec [OF Cons.prems] have
    fr1: "frame (fp h c) h ?h1" and
    val1: "\<And>x y. in_sq (sm_dimension c) x y \<Longrightarrow> rd ?h1 c x y = rd h c x y + rd h a x k * rd h b k y"
    by blast+
  have a1: "rd ?h1 a x y = rd h a x y" for x y
    using fr1 Cons.prems(2) by (rule frame_rd)
  have b1: "rd ?h1 b x y = rd h b x y" for x y
    using fr1 Cons.prems(3) by (rule frame_rd)
  have "frame (fp ?h1 c) ?h1 (fold (linear_step a b c) ks ?h1) \<and>
         (\<forall>x y. in_sq (sm_dimension c) x y \<longrightarrow>
            rd (fold (linear_step a b c) ks ?h1) c x y =
              rd ?h1 c x y + (\<Sum>k\<leftarrow>ks. rd ?h1 a x k * rd ?h1 b k y))"
    using Cons.prems by (intro Cons.IH) (simp_all add: frame_solid [OF fr1] frame_fp [OF fr1])
  then have fr2: "frame (fp h c) ?h1 (fold (linear_step a b c) ks ?h1)" and
    val2: "\<And>x y. in_sq (sm_dimension c) x y \<Longrightarrow>
            rd (fold (linear_step a b c) ks ?h1) c x y =
              rd h c x y + rd h a x k * rd h b k y + (\<Sum>k\<leftarrow>ks. rd h a x k * rd h b k y)"
    by (simp_all add: frame_fp [OF fr1] a1 b1 val1)
  from frame_trans [OF fr1 fr2] val2 show ?case
    by (simp add: add.assoc)
qed

lemma sum_list_upto: "(\<Sum>k\<leftarrow>[0 .. n - 1]. f k) = (\<Sum>k\<in>{0..<n}. f k)"
proof -
  have "(\<Sum>k\<leftarrow>[0 .. n - 1]. f k) = sum f (set [0 .. n - 1])"
    by (rule sum_list_distinct_conv_sum_set) simp
  also have "set [0 .. n - 1] = {0..<n}" by auto
  finally show ?thesis .
qed

lemma linear_mul_spec:
  fixes h :: "'a::ring heap"
  assumes "solid h c" "0 \<le> stride a" "0 \<le> stride b"
    and "fp h a \<inter> fp h c = {}" "fp h b \<inter> fp h c = {}"
  shows "\<exists>h'. linear_mul a b c h = Inr h' \<and> frame (fp h c) h h' \<and>
           (\<forall>x y. in_sq (sm_dimension c) x y \<longrightarrow>
              rd h' c x y = rd h c x y + (\<Sum>k\<in>{0..<sm_dimension c}. rd h a x k * rd h b k y))"
  using linear_fold_spec [OF assms(1,4,5), of "[0 .. sm_dimension c - 1]"] assms
  by (simp add: linear_mul_pure solid_stride sum_list_upto)

section \<open>Quadrants of an even-sided view\<close>

lemma ceil_divide_even: "0 \<le> m \<Longrightarrow> ceil_divide (2 * m) = m"
  by (simp add: ceil_divide_nonneg)

lemma sub_fields:
  "sm_dimension (submatrix_sub s qx qy) = ceil_divide (sm_dimension s)"
  "sm_i (submatrix_sub s qx qy) = sm_i s + qx * ceil_divide (sm_dimension s)"
  "sm_j (submatrix_sub s qx qy) = sm_j s + qy * ceil_divide (sm_dimension s)"
  "buf (submatrix_sub s qx qy) = buf s"
  "stride (submatrix_sub s qx qy) = stride s"
  by (simp_all add: submatrix_sub_def Let_def buf_def stride_def)

lemma sub_index:
  "index_of (submatrix_sub s qx qy) x y =
     index_of s (x + qx * ceil_divide (sm_dimension s)) (y + qy * ceil_divide (sm_dimension s))"
  by (simp add: index_of_def sub_fields algebra_simps)

lemma sub_in_bounds:
  assumes "sm_dimension s = 2 * m" "0 \<le> m" "qx \<in> {0, 1}" "qy \<in> {0, 1}"
  shows "submatrix_in_bounds h (submatrix_sub s qx qy) x y \<longleftrightarrow>
           in_sq m x y \<and> submatrix_in_bounds h s (x + qx * m) (y + qy * m)"
proof -
  have cd: "ceil_divide (sm_dimension s) = m"
    using assms(1,2) by (simp add: ceil_divide_even)
  have sq: "in_sq m x y \<Longrightarrow> in_sq (sm_dimension s) (x + qx * m) (y + qy * m)"
    using assms(1,3,4) by (auto simp: in_sq_def)
  have "submatrix_in_bounds h (submatrix_sub s qx qy) x y \<longleftrightarrow>
          0 \<le> x + qx * m + sm_i s \<and> 0 \<le> y + qy * m + sm_j s \<and>
          index_of s (x + qx * m) (y + qy * m) < int (length (cells h (buf s))) \<and> in_sq m x y"
    by (simp add: in_bounds_iff [of h "submatrix_sub s qx qy"] sub_index sub_fields cd add.commute
        add.left_commute)
  with sq show ?thesis
    by (auto simp: in_bounds_iff [of h s])
qed

lemma sub_rd:
  assumes "sm_dimension s = 2 * m" "0 \<le> m" "qx \<in> {0, 1}" "qy \<in> {0, 1}"
  shows "rd h (submatrix_sub s qx qy) x y =
           (if in_sq m x y then rd h s (x + qx * m) (y + qy * m) else 0)"
proof -
  have cd: "ceil_divide (sm_dimension s) = m"
    using assms(1,2) by (simp add: ceil_divide_even)
  show ?thesis
    by (simp add: rd_def sub_in_bounds [OF assms] sub_index sub_fields cd)
qed

lemma sub_fp:
  assumes "sm_dimension s = 2 * m" "0 \<le> m" "qx \<in> {0, 1}" "qy \<in> {0, 1}"
  shows "fp h (submatrix_sub s qx qy) =
           {(buf s, nat (index_of s (x + qx * m) (y + qy * m))) | x y.
              in_sq m x y \<and> submatrix_in_bounds h s (x + qx * m) (y + qy * m)}"
proof -
  have cd: "ceil_divide (sm_dimension s) = m"
    using assms(1,2) by (simp add: ceil_divide_even)
  show ?thesis
    by (simp add: fp_def sub_in_bounds [OF assms] sub_index sub_fields cd)
qed

lemma sub_fp_subset:
  assumes "sm_dimension s = 2 * m" "0 \<le> m" "qx \<in> {0, 1}" "qy \<in> {0, 1}"
  shows "fp h (submatrix_sub s qx qy) \<subseteq> fp h s"
  unfolding sub_fp [OF assms] by (auto simp: fp_def)

lemma sub_solid:
  assumes "solid h s" "sm_dimension s = 2 * m" "0 \<le> m" "qx \<in> {0, 1}" "qy \<in> {0, 1}"
  shows "solid h (submatrix_sub s qx qy)"
proof -
  have cd: "ceil_divide (sm_dimension s) = m"
    using assms(2,3) by (simp add: ceil_divide_even)
  show ?thesis
    using assms(1,3,4,5) unfolding solid_def sub_fields assms(2)
    by (auto simp: ceil_divide_even)
qed

lemma sub_fp_disjoint:
  assumes "solid h s" "sm_dimension s = 2 * m" "0 \<le> m"
    and "qx \<in> {0, 1}" "qy \<in> {0, 1}" "qx' \<in> {0, 1}" "qy' \<in> {0, 1}"
    and "(qx, qy) \<noteq> (qx', qy')"
  shows "fp h (submatrix_sub s qx qy) \<inter> fp h (submatrix_sub s qx' qy') = {}"
proof -
  have False
    if xy: "in_sq m x y" and xy': "in_sq m x' y'"
      and eq: "nat (index_of s (x + qx * m) (y + qy * m)) = nat (index_of s (x' + qx' * m) (y' + qy' * m))"
    for x y x' y'
  proof -
    have "in_sq (sm_dimension s) (x + qx * m) (y + qy * m)"
      "in_sq (sm_dimension s) (x' + qx' * m) (y' + qy' * m)"
      using xy xy' assms(2,4-7) by (auto simp: in_sq_def)
    from solid_index_inj [OF assms(1) this eq]
    have "x + qx * m = x' + qx' * m" "y + qy * m = y' + qy' * m" by simp_all
    with xy xy' assms(4-8) show False by (auto simp: in_sq_def)
  qed
  then show ?thesis
    unfolding sub_fp [OF assms(2,3,4,5)] sub_fp [OF assms(2,3,6,7)] by blast
qed

section \<open>The sixteen views of one level of the recursion\<close>

lemma quad_range: "quad_x sl \<in> {0, 1}" "quad_y sl \<in> {0, 1}"
  by (cases sl; simp)+

lemma same_owner_quad: "owner_of s = owner_of t \<Longrightarrow> s \<noteq> t \<Longrightarrow> (quad_x s, quad_y s) \<noteq> (quad_x t, quad_y t)"
  by (cases s; cases t; simp)

lemma pre_frame: "frame F h h' \<Longrightarrow> pre n V h' = pre n V h"
  by (simp add: pre_def frame_solid frame_fp)

lemma view_dim:
  assumes "pre (2 * m) V h" "0 \<le> m"
  shows "sm_dimension (view V sl) = m" "0 \<le> stride (view V sl)"
  using assms by (simp_all add: view_def sub_fields pre_def ceil_divide_even)

lemma view_solid:
  assumes "pre (2 * m) V h" "0 \<le> m" "writable t"
  shows "solid h (view V t)"
proof -
  have "solid h (parent V (owner_of t))"
    using assms(1,3) by (auto simp: pre_def writable_def)
  then show ?thesis
    unfolding view_def using assms(1,2) quad_range
    by (intro sub_solid [where m = m]) (simp_all add: pre_def)
qed

lemma view_fp_subset:
  assumes "pre (2 * m) V h" "0 \<le> m"
  shows "fp h (view V sl) \<subseteq> fp h (parent V (owner_of sl))"
  unfolding view_def using assms quad_range
  by (intro sub_fp_subset [where m = m]) (simp_all add: pre_def)

lemma view_disjoint:
  assumes "pre (2 * m) V h" "0 \<le> m" "writable t" "s \<noteq> t"
  shows "fp h (view V s) \<inter> fp h (view V t) = {}"
proof (cases "owner_of s = owner_of t")
  case True
  have sol: "solid h (parent V (owner_of t))"
    using assms(1,3) by (auto simp: pre_def writable_def)
  show ?thesis
    unfolding view_def True using sol assms(1,2) quad_range same_owner_quad [OF True assms(4)]
    by (intro sub_fp_disjoint [where m = m]) (simp_all add: pre_def)
next
  case False
  have "fp h (parent V (owner_of s)) \<inter> fp h (parent V (owner_of t)) = {}"
  proof (cases "owner_of t = OwnC")
    case True
    with False assms(1) show ?thesis by (simp add: pre_def)
  next
    case F: False
    with assms(3) have "owner_of t = OwnS" by (simp add: writable_def)
    with False assms(1) show ?thesis by (simp add: pre_def)
  qed
  with view_fp_subset [OF assms(1,2), of s] view_fp_subset [OF assms(1,2), of t]
  show ?thesis by blast
qed

lemma view_in_frame:
  assumes "pre (2 * m) V h" "0 \<le> m" "writable t"
  shows "fp h (view V t) \<subseteq> fp h (parent V OwnC) \<union> fp h (parent V OwnS)"
  using view_fp_subset [OF assms(1,2), of t] assms(3) by (auto simp: writable_def)

lemma view_outside_frame:
  assumes "pre (2 * m) V h" "0 \<le> m" "\<not> writable s"
  shows "fp h (view V s) \<inter> (fp h (parent V OwnC) \<union> fp h (parent V OwnS)) = {}"
proof -
  have "owner_of s \<noteq> OwnC" "owner_of s \<noteq> OwnS"
    using assms(3) by (simp_all add: writable_def)
  with assms(1) have "fp h (parent V (owner_of s)) \<inter> (fp h (parent V OwnC) \<union> fp h (parent V OwnS)) = {}"
    by (auto simp: pre_def)
  with view_fp_subset [OF assms(1,2), of s] show ?thesis by blast
qed

section \<open>Block products\<close>

lemma sum_split_shift:
  fixes f :: "int \<Rightarrow> 'a::comm_monoid_add"
  assumes "0 \<le> m"
  shows "(\<Sum>k\<in>{0..<2 * m}. f k) = (\<Sum>k\<in>{0..<m}. f k) + (\<Sum>k\<in>{0..<m}. f (k + m))"
proof -
  have "{0..<2 * m} = {0..<m} \<union> {m..<2 * m}" using assms by auto
  moreover have "{0..<m} \<inter> {m..<2 * m} = {}" by auto
  ultimately have "(\<Sum>k\<in>{0..<2 * m}. f k) = (\<Sum>k\<in>{0..<m}. f k) + (\<Sum>k\<in>{m..<2 * m}. f k)"
    by (simp add: sum.union_disjoint)
  moreover have "(\<Sum>k\<in>{m..<2 * m}. f k) = (\<Sum>k\<in>{0..<m}. f (k + m))"
    by (rule sum.reindex_bij_witness [where i = "\<lambda>k. k + m" and j = "\<lambda>k. k - m"]) auto
  ultimately show ?thesis by simp
qed

lemma pmul_blocks:
  fixes X Y :: "'a::ring mat"
  assumes "in_sq m x y" "ux \<in> {0, 1}" "uy \<in> {0, 1}"
  shows "pmul (2 * m) X Y (x + ux * m) (y + uy * m) =
           pmul m (blk m X ux 0) (blk m Y 0 uy) x y + pmul m (blk m X ux 1) (blk m Y 1 uy) x y"
proof -
  have m: "0 \<le> m" using assms(1) by (simp add: in_sq_def)
  have sq: "in_sq (2 * m) (x + ux * m) (y + uy * m)"
    using assms by (auto simp: in_sq_def)
  have "pmul m (blk m X ux 0) (blk m Y 0 uy) x y = (\<Sum>k\<in>{0..<m}. X (x + ux * m) k * Y k (y + uy * m))"
    using assms(1) by (simp add: pmul_def blk_def in_sq_def)
  moreover
  have "pmul m (blk m X ux 1) (blk m Y 1 uy) x y =
          (\<Sum>k\<in>{0..<m}. X (x + ux * m) (k + m) * Y (k + m) (y + uy * m))"
    using assms(1) by (simp add: pmul_def blk_def in_sq_def)
  ultimately show ?thesis
    using sq by (simp add: pmul_def sum_split_shift [OF m])
qed

lemma pmul_add_left: "pmul m (padd X X') Y = padd (pmul m X Y) (pmul m X' Y)"
  by (intro ext) (simp add: pmul_def padd_def distrib_right sum.distrib)

lemma pmul_add_right: "pmul m X (padd Y Y') = padd (pmul m X Y) (pmul m X Y')"
  by (intro ext) (simp add: pmul_def padd_def distrib_left sum.distrib)

lemma pmul_sub_left: "pmul m (psub X X') Y = psub (pmul m X Y) (pmul m X' Y)"
  by (intro ext) (simp add: pmul_def psub_def left_diff_distrib sum_subtractf)

lemma pmul_sub_right: "pmul m X (psub Y Y') = psub (pmul m X Y) (pmul m X Y')"
  by (intro ext) (simp add: pmul_def psub_def right_diff_distrib sum_subtractf)

lemmas pmul_linear = pmul_add_left pmul_add_right pmul_sub_left pmul_sub_right

text \<open>Strassen's four recombination identities, over any ring.\<close>

lemma strassen_c00:
  fixes a00 a01 a10 a11 b00 b01 b10 b11 :: "'a::ring mat"
  shows "padd (psub (padd (padd pzero
            (pmul m (padd a00 a11) (padd b00 b11)))
            (pmul m a11 (psub b10 b00)))
            (pmul m (padd a00 a01) b11))
            (pmul m (psub a01 a11) (padd b10 b11)) x y =
         pmul m a00 b00 x y + pmul m a01 b10 x y"
  by (simp only: pmul_linear) (simp add: padd_def psub_def pzero_def)

lemma strassen_c01:
  fixes a00 a01 a10 a11 b00 b01 b10 b11 :: "'a::ring mat"
  shows "padd (padd pzero (pmul m a00 (psub b01 b11))) (pmul m (padd a00 a01) b11) x y =
         pmul m a00 b01 x y + pmul m a01 b11 x y"
  by (simp only: pmul_linear) (simp add: padd_def psub_def pzero_def)

lemma strassen_c10:
  fixes a00 a01 a10 a11 b00 b01 b10 b11 :: "'a::ring mat"
  shows "padd (padd pzero (pmul m (padd a10 a11) b00)) (pmul m a11 (psub b10 b00)) x y =
         pmul m a10 b00 x y + pmul m a11 b10 x y"
  by (simp only: pmul_linear) (simp add: padd_def psub_def pzero_def)

lemma strassen_c11:
  fixes a00 a01 a10 a11 b00 b01 b10 b11 :: "'a::ring mat"
  shows "padd (padd (psub (padd pzero
            (pmul m (padd a00 a11) (padd b00 b11)))
            (pmul m (padd a10 a11) b00))
            (pmul m a00 (psub b01 b11)))
            (pmul m (psub a10 a00) (padd b00 b01)) x y =
         pmul m a10 b01 x y + pmul m a11 b11 x y"
  by (simp only: pmul_linear) (simp add: padd_def psub_def pzero_def)

section \<open>One statement of the recursion, on the tracked views\<close>

lemma sval_supd_same: "writable t \<Longrightarrow> t \<noteq> QSR \<Longrightarrow> sval base (supd r t v) t = v"
  by (cases r rule: prod_cases7; cases t; simp add: writable_def)

lemma sval_supd_other: "s \<noteq> t \<Longrightarrow> sval base (supd r t v) s = sval base r s"
  by (cases r rule: prod_cases7; cases t; cases s; simp)

lemma writable_QSR: "writable QSR"
  by (simp add: writable_def)

lemma view_blk:
  assumes "pre (2 * m) V h" "0 \<le> m"
  shows "rd h (view V sl) = blk m (rd h (parent V (owner_of sl))) (quad_x sl) (quad_y sl)"
proof (intro ext)
  fix x y
  have "sm_dimension (parent V (owner_of sl)) = 2 * m"
    using assms(1) by (simp add: pre_def)
  from sub_rd [OF this assms(2) quad_range, of h sl sl x y]
  show "rd h (view V sl) x y = blk m (rd h (parent V (owner_of sl))) (quad_x sl) (quad_y sl) x y"
    by (simp add: view_def blk_def)
qed

lemma st_step:
  fixes h :: "'a::zero heap"
  assumes P: "pre (2 * m) V h0" and m: "0 \<le> m" and S: "st V h0 h r"
    and t: "writable t" "t \<noteq> QSR"
    and fr': "frame (fp h (view V t) \<union> fp h (view V QSR)) h h'"
    and v: "rd h' (view V t) = v"
  shows "st V h0 h' (supd r t v)"
proof -
  let ?F = "fp h0 (parent V OwnC) \<union> fp h0 (parent V OwnS)"
  from S have fr: "frame ?F h0 h"
    and vals: "\<And>sl. sl \<noteq> QSR \<Longrightarrow> rd h (view V sl) = sval (\<lambda>s. rd h0 (view V s)) r sl"
    by (simp_all add: st_def)
  have Ph: "pre (2 * m) V h" using P by (simp add: pre_frame [OF fr])
  have sub: "fp h (view V t) \<union> fp h (view V QSR) \<subseteq> ?F"
    using view_in_frame [OF Ph m t(1)] view_in_frame [OF Ph m writable_QSR]
    by (simp add: frame_fp [OF fr])
  have "frame (?F \<union> (fp h (view V t) \<union> fp h (view V QSR))) h0 h'"
    using fr fr' by (rule frame_trans)
  then have fr2: "frame ?F h0 h'"
    by (rule frame_mono) (use sub in auto)
  have "rd h' (view V sl) = sval (\<lambda>s. rd h0 (view V s)) (supd r t v) sl" if "sl \<noteq> QSR" for sl
  proof (cases "sl = t")
    case True
    with v t show ?thesis by (simp add: sval_supd_same)
  next
    case False
    have "fp h (view V sl) \<inter> (fp h (view V t) \<union> fp h (view V QSR)) = {}"
      using view_disjoint [OF Ph m t(1) False] view_disjoint [OF Ph m writable_QSR that]
      by blast
    with fr' have "rd h' (view V sl) = rd h (view V sl)"
      by (intro ext frame_rd)
    with False that show ?thesis by (simp add: vals sval_supd_other)
  qed
  with fr2 show ?thesis by (simp add: st_def)
qed

lemma st_sum:
  fixes h :: "'a::ring heap"
  assumes P: "pre (2 * m) V h0" and m: "0 \<le> m" and S: "st V h0 h r"
    and t: "writable t" "t \<noteq> QSR" and ab: "a \<noteq> QSR" "b \<noteq> QSR"
  shows "\<exists>h'. sum_m (view V a) (view V b) (view V t) h = Inr h' \<and>
           st V h0 h' (supd r t (padd (sval (\<lambda>s. rd h0 (view V s)) r a) (sval (\<lambda>s. rd h0 (view V s)) r b)))"
proof -
  from S have fr: "frame (fp h0 (parent V OwnC) \<union> fp h0 (parent V OwnS)) h0 h"
    and vals: "\<And>sl. sl \<noteq> QSR \<Longrightarrow> rd h (view V sl) = sval (\<lambda>s. rd h0 (view V s)) r sl"
    by (simp_all add: st_def)
  have Ph: "pre (2 * m) V h" using P by (simp add: pre_frame [OF fr])
  have dis: "view V s = view V t \<or> fp h (view V s) \<inter> fp h (view V t) = {}" for s
    using view_disjoint [OF Ph m t(1), of s] by (cases "s = t") simp_all
  from sum_m_spec [OF view_solid [OF Ph m t(1)] view_dim(2) [OF Ph m] view_dim(2) [OF Ph m] dis dis, of a b]
  obtain h' where h': "sum_m (view V a) (view V b) (view V t) h = Inr h'"
    "frame (fp h (view V t)) h h'"
    "\<And>x y. in_sq m x y \<Longrightarrow> rd h' (view V t) x y = rd h (view V a) x y + rd h (view V b) x y"
    by (auto simp: view_dim(1) [OF Ph m])
  have "rd h' (view V t) x y = padd (rd h (view V a)) (rd h (view V b)) x y" for x y
    using h'(3) [of x y] rd_outside [of "view V t" x y h'] rd_outside [of "view V a" x y h]
      rd_outside [of "view V b" x y h]
    by (cases "in_sq m x y") (simp_all add: padd_def view_dim(1) [OF Ph m])
  then have "rd h' (view V t) = padd (sval (\<lambda>s. rd h0 (view V s)) r a) (sval (\<lambda>s. rd h0 (view V s)) r b)"
    using ab by (intro ext) (simp add: vals)
  moreover have "frame (fp h (view V t) \<union> fp h (view V QSR)) h h'"
    using h'(2) by (rule frame_mono) simp
  ultimately show ?thesis
    using h'(1) st_step [OF P m S t] by blast
qed

lemma st_sub:
  fixes h :: "'a::ring heap"
  assumes P: "pre (2 * m) V h0" and m: "0 \<le> m" and S: "st V h0 h r"
    and t: "writable t" "t \<noteq> QSR" and ab: "a \<noteq> QSR" "b \<noteq> QSR"
  shows "\<exists>h'. sub_m (view V a) (view V b) (view V t) h = Inr h' \<and>
           st V h0 h' (supd r t (psub (sval (\<lambda>s. rd h0 (view V s)) r a) (sval (\<lambda>s. rd h0 (view V s)) r b)))"
proof -
  from S have fr: "frame (fp h0 (parent V OwnC) \<union> fp h0 (parent V OwnS)) h0 h"
    and vals: "\<And>sl. sl \<noteq> QSR \<Longrightarrow> rd h (view V sl) = sval (\<lambda>s. rd h0 (view V s)) r sl"
    by (simp_all add: st_def)
  have Ph: "pre (2 * m) V h" using P by (simp add: pre_frame [OF fr])
  have dis: "view V s = view V t \<or> fp h (view V s) \<inter> fp h (view V t) = {}" for s
    using view_disjoint [OF Ph m t(1), of s] by (cases "s = t") simp_all
  from sub_m_spec [OF view_solid [OF Ph m t(1)] view_dim(2) [OF Ph m] view_dim(2) [OF Ph m] dis dis, of a b]
  obtain h' where h': "sub_m (view V a) (view V b) (view V t) h = Inr h'"
    "frame (fp h (view V t)) h h'"
    "\<And>x y. in_sq m x y \<Longrightarrow> rd h' (view V t) x y = rd h (view V a) x y - rd h (view V b) x y"
    by (auto simp: view_dim(1) [OF Ph m])
  have "rd h' (view V t) x y = psub (rd h (view V a)) (rd h (view V b)) x y" for x y
    using h'(3) [of x y] rd_outside [of "view V t" x y h'] rd_outside [of "view V a" x y h]
      rd_outside [of "view V b" x y h]
    by (cases "in_sq m x y") (simp_all add: psub_def view_dim(1) [OF Ph m])
  then have "rd h' (view V t) = psub (sval (\<lambda>s. rd h0 (view V s)) r a) (sval (\<lambda>s. rd h0 (view V s)) r b)"
    using ab by (intro ext) (simp add: vals)
  moreover have "frame (fp h (view V t) \<union> fp h (view V QSR)) h h'"
    using h'(2) by (rule frame_mono) simp
  ultimately show ?thesis
    using h'(1) st_step [OF P m S t] by blast
qed

lemma st_rec:
  fixes h :: "'a::ring heap"
  assumes P: "pre (2 * m) V h0" and m: "0 \<le> m" and S: "st V h0 h r"
    and ab: "a \<noteq> QSR" "a \<noteq> QM" "b \<noteq> QSR" "b \<noteq> QM"
    and IH: "\<And>V' (h :: 'a heap). pre m V' h \<Longrightarrow>
       \<exists>h'. recur (parent V' OwnA) (parent V' OwnB) (parent V' OwnC) (parent V' OwnS) h = Some (Inr h') \<and>
            frame (fp h (parent V' OwnC) \<union> fp h (parent V' OwnS)) h h' \<and>
            rd h' (parent V' OwnC) = pmul m (rd h (parent V' OwnA)) (rd h (parent V' OwnB))"
  shows "\<exists>h'. recur (view V a) (view V b) (view V QM) (view V QSR) h = Some (Inr h') \<and>
           st V h0 h' (supd r QM (pmul m (sval (\<lambda>s. rd h0 (view V s)) r a) (sval (\<lambda>s. rd h0 (view V s)) r b)))"
proof -
  from S have fr: "frame (fp h0 (parent V OwnC) \<union> fp h0 (parent V OwnS)) h0 h"
    and vals: "\<And>sl. sl \<noteq> QSR \<Longrightarrow> rd h (view V sl) = sval (\<lambda>s. rd h0 (view V s)) r sl"
    by (simp_all add: st_def)
  have Ph: "pre (2 * m) V h" using P by (simp add: pre_frame [OF fr])
  have wM: "writable QM" by (simp add: writable_def)
  let ?V' = "(view V a, view V b, view V QM, view V QSR)"
  have "pre m ?V' h"
    unfolding pre_def
  proof (intro conjI allI impI)
    fix w
    show "sm_dimension (parent ?V' w) = m" "0 \<le> stride (parent ?V' w)"
      by (cases w; simp add: view_dim [OF Ph m])+
    show "fp h (parent ?V' w) \<inter> fp h (parent ?V' OwnC) = {}" if "w \<noteq> OwnC"
      using that ab view_disjoint [OF Ph m wM, of a] view_disjoint [OF Ph m wM, of b]
        view_disjoint [OF Ph m wM, of QSR]
      by (cases w) simp_all
    show "fp h (parent ?V' w) \<inter> fp h (parent ?V' OwnS) = {}" if "w \<noteq> OwnS"
      using that ab view_disjoint [OF Ph m writable_QSR, of a] view_disjoint [OF Ph m writable_QSR, of b]
        view_disjoint [OF Ph m writable_QSR, of QM]
      by (cases w) simp_all
  next
    show "solid h (parent ?V' OwnC)" "solid h (parent ?V' OwnS)"
      using view_solid [OF Ph m wM] view_solid [OF Ph m writable_QSR] by simp_all
  qed
  from IH [OF this] obtain h' where h': "recur (view V a) (view V b) (view V QM) (view V QSR) h = Some (Inr h')"
    "frame (fp h (view V QM) \<union> fp h (view V QSR)) h h'"
    "rd h' (view V QM) = pmul m (rd h (view V a)) (rd h (view V b))"
    by auto
  from h'(3) ab have "rd h' (view V QM) = pmul m (sval (\<lambda>s. rd h0 (view V s)) r a) (sval (\<lambda>s. rd h0 (view V s)) r b)"
    by (simp add: vals)
  with h'(1) st_step [OF P m S wM _ h'(2)] show ?thesis by blast
qed

section \<open>Correctness of the recursion\<close>

lemma smod_2_nonneg: "0 \<le> (n::int) \<Longrightarrow> n smod 2 = n mod 2"
  by (cases "n = 0") (simp_all add: signed_modulo_int_def sgn_if)

lemma then_R_Some_Inr: "then_R (Some (Inr h)) k = k h"
  by (simp add: then_R_def)

lemma strassen_decompose_correct:
  fixes hc :: "'a::ring heap"
  assumes P2: "pre (2 * m) V hc" and m0: "0 \<le> m"
    and clr: "rd hc (parent V OwnC) = pzero"
    and IH: "\<And>V' (h :: 'a heap). pre m V' h \<Longrightarrow>
       \<exists>h'. strassen_mul_recursion cutoff (parent V' OwnA) (parent V' OwnB) (parent V' OwnC) (parent V' OwnS) h = Some (Inr h') \<and>
            frame (fp h (parent V' OwnC) \<union> fp h (parent V' OwnS)) h h' \<and>
            rd h' (parent V' OwnC) = pmul m (rd h (parent V' OwnA)) (rd h (parent V' OwnB))"
  shows "\<exists>h'. strassen_decompose (strassen_mul_recursion cutoff)
                 (parent V OwnA) (parent V OwnB) (parent V OwnC) (parent V OwnS) hc = Some (Inr h') \<and>
           frame (fp hc (parent V OwnC) \<union> fp hc (parent V OwnS)) hc h' \<and>
           rd h' (parent V OwnC) = pmul (2 * m) (rd hc (parent V OwnA)) (rd hc (parent V OwnB))"
proof -
  let ?A = "rd hc (parent V OwnA)" and ?B = "rd hc (parent V OwnB)"
  let ?a00 = "rd hc (view V QA00)" and ?a01 = "rd hc (view V QA01)"
  let ?a10 = "rd hc (view V QA10)" and ?a11 = "rd hc (view V QA11)"
  let ?b00 = "rd hc (view V QB00)" and ?b01 = "rd hc (view V QB01)"
  let ?b10 = "rd hc (view V QB10)" and ?b11 = "rd hc (view V QB11)"
  let ?gm = "rd hc (view V QM)" and ?g0 = "rd hc (view V Qsum0)" and ?g1 = "rd hc (view V Qsum1)"
  have cz: "rd hc (view V sl) = pzero" if "owner_of sl = OwnC" for sl
    using that by (simp add: view_blk [OF P2 m0] clr blk_def pzero_def)
  have s0: "st V hc hc (pzero, pzero, pzero, pzero, ?gm, ?g0, ?g1)"
    unfolding st_def
  proof (intro conjI allI impI)
    fix sl :: slot
    show "rd hc (view V sl) = sval (\<lambda>s. rd hc (view V s)) (pzero, pzero, pzero, pzero, ?gm, ?g0, ?g1) sl"
      by (cases sl) (simp_all add: cz)
  qed (rule frame_refl)
  from st_sum [OF P2 m0 s0, of Qsum0 QA00 QA11]
  obtain h1 where e1: "sum_m (view V QA00) (view V QA11) (view V Qsum0) hc = Inr h1"
    and s1: "st V hc h1 (pzero, pzero, pzero, pzero, ?gm, padd ?a00 ?a11, ?g1)"
    by (auto simp: writable_def)
  from st_sum [OF P2 m0 s1, of Qsum1 QB00 QB11]
  obtain h2 where e2: "sum_m (view V QB00) (view V QB11) (view V Qsum1) h1 = Inr h2"
    and s2: "st V hc h2 (pzero, pzero, pzero, pzero, ?gm, padd ?a00 ?a11, padd ?b00 ?b11)"
    by (auto simp: writable_def)
  let ?M1 = "pmul m (padd ?a00 ?a11) (padd ?b00 ?b11)"
  from st_rec [OF P2 m0 s2 _ _ _ _ IH, of Qsum0 Qsum1]
  obtain h3 where e3: "strassen_mul_recursion cutoff (view V Qsum0) (view V Qsum1) (view V QM) (view V QSR) h2 = Some (Inr h3)"
    and s3: "st V hc h3 (pzero, pzero, pzero, pzero, ?M1, padd ?a00 ?a11, padd ?b00 ?b11)"
    by (auto simp: writable_def)
  from st_sum [OF P2 m0 s3, of QC00 QC00 QM]
  obtain h4 where e4: "sum_m (view V QC00) (view V QM) (view V QC00) h3 = Inr h4"
    and s4: "st V hc h4 (padd pzero ?M1, pzero, pzero, pzero, ?M1, padd ?a00 ?a11, padd ?b00 ?b11)"
    by (auto simp: writable_def)
  from st_sum [OF P2 m0 s4, of QC11 QC11 QM]
  obtain h5 where e5: "sum_m (view V QC11) (view V QM) (view V QC11) h4 = Inr h5"
    and s5: "st V hc h5 (padd pzero ?M1, pzero, pzero, padd pzero ?M1, ?M1, padd ?a00 ?a11, padd ?b00 ?b11)"
    by (auto simp: writable_def)
  from st_sum [OF P2 m0 s5, of Qsum0 QA10 QA11]
  obtain h6 where e6: "sum_m (view V QA10) (view V QA11) (view V Qsum0) h5 = Inr h6"
    and s6: "st V hc h6 (padd pzero ?M1, pzero, pzero, padd pzero ?M1, ?M1, padd ?a10 ?a11, padd ?b00 ?b11)"
    by (auto simp: writable_def)
  let ?M2 = "pmul m (padd ?a10 ?a11) ?b00"
  from st_rec [OF P2 m0 s6 _ _ _ _ IH, of Qsum0 QB00]
  obtain h7 where e7: "strassen_mul_recursion cutoff (view V Qsum0) (view V QB00) (view V QM) (view V QSR) h6 = Some (Inr h7)"
    and s7: "st V hc h7 (padd pzero ?M1, pzero, pzero, padd pzero ?M1, ?M2, padd ?a10 ?a11, padd ?b00 ?b11)"
    by (auto simp: writable_def)
  from st_sum [OF P2 m0 s7, of QC10 QC10 QM]
  obtain h8 where e8: "sum_m (view V QC10) (view V QM) (view V QC10) h7 = Inr h8"
    and s8: "st V hc h8 (padd pzero ?M1, pzero, padd pzero ?M2, padd pzero ?M1, ?M2, padd ?a10 ?a11, padd ?b00 ?b11)"
    by (auto simp: writable_def)
  from st_sub [OF P2 m0 s8, of QC11 QC11 QM]
  obtain h9 where e9: "sub_m (view V QC11) (view V QM) (view V QC11) h8 = Inr h9"
    and s9: "st V hc h9 (padd pzero ?M1, pzero, padd pzero ?M2, psub (padd pzero ?M1) ?M2, ?M2, padd ?a10 ?a11, padd ?b00 ?b11)"
    by (auto simp: writable_def)
  from st_sub [OF P2 m0 s9, of Qsum0 QB01 QB11]
  obtain h10 where e10: "sub_m (view V QB01) (view V QB11) (view V Qsum0) h9 = Inr h10"
    and s10: "st V hc h10 (padd pzero ?M1, pzero, padd pzero ?M2, psub (padd pzero ?M1) ?M2, ?M2, psub ?b01 ?b11, padd ?b00 ?b11)"
    by (auto simp: writable_def)
  let ?M3 = "pmul m ?a00 (psub ?b01 ?b11)"
  from st_rec [OF P2 m0 s10 _ _ _ _ IH, of QA00 Qsum0]
  obtain h11 where e11: "strassen_mul_recursion cutoff (view V QA00) (view V Qsum0) (view V QM) (view V QSR) h10 = Some (Inr h11)"
    and s11: "st V hc h11 (padd pzero ?M1, pzero, padd pzero ?M2, psub (padd pzero ?M1) ?M2, ?M3, psub ?b01 ?b11, padd ?b00 ?b11)"
    by (auto simp: writable_def)
  from st_sum [OF P2 m0 s11, of QC01 QC01 QM]
  obtain h12 where e12: "sum_m (view V QC01) (view V QM) (view V QC01) h11 = Inr h12"
    and s12: "st V hc h12 (padd pzero ?M1, padd pzero ?M3, padd pzero ?M2, psub (padd pzero ?M1) ?M2, ?M3, psub ?b01 ?b11, padd ?b00 ?b11)"
    by (auto simp: writable_def)
  from st_sum [OF P2 m0 s12, of QC11 QC11 QM]
  obtain h13 where e13: "sum_m (view V QC11) (view V QM) (view V QC11) h12 = Inr h13"
    and s13: "st V hc h13 (padd pzero ?M1, padd pzero ?M3, padd pzero ?M2, padd (psub (padd pzero ?M1) ?M2) ?M3, ?M3, psub ?b01 ?b11, padd ?b00 ?b11)"
    by (auto simp: writable_def)
  from st_sub [OF P2 m0 s13, of Qsum0 QB10 QB00]
  obtain h14 where e14: "sub_m (view V QB10) (view V QB00) (view V Qsum0) h13 = Inr h14"
    and s14: "st V hc h14 (padd pzero ?M1, padd pzero ?M3, padd pzero ?M2, padd (psub (padd pzero ?M1) ?M2) ?M3, ?M3, psub ?b10 ?b00, padd ?b00 ?b11)"
    by (auto simp: writable_def)
  let ?M4 = "pmul m ?a11 (psub ?b10 ?b00)"
  from st_rec [OF P2 m0 s14 _ _ _ _ IH, of QA11 Qsum0]
  obtain h15 where e15: "strassen_mul_recursion cutoff (view V QA11) (view V Qsum0) (view V QM) (view V QSR) h14 = Some (Inr h15)"
    and s15: "st V hc h15 (padd pzero ?M1, padd pzero ?M3, padd pzero ?M2, padd (psub (padd pzero ?M1) ?M2) ?M3, ?M4, psub ?b10 ?b00, padd ?b00 ?b11)"
    by (auto simp: writable_def)
  from st_sum [OF P2 m0 s15, of QC00 QC00 QM]
  obtain h16 where e16: "sum_m (view V QC00) (view V QM) (view V QC00) h15 = Inr h16"
    and s16: "st V hc h16 (padd (padd pzero ?M1) ?M4, padd pzero ?M3, padd pzero ?M2, padd (psub (padd pzero ?M1) ?M2) ?M3, ?M4, psub ?b10 ?b00, padd ?b00 ?b11)"
    by (auto simp: writable_def)
  from st_sum [OF P2 m0 s16, of QC10 QC10 QM]
  obtain h17 where e17: "sum_m (view V QC10) (view V QM) (view V QC10) h16 = Inr h17"
    and s17: "st V hc h17 (padd (padd pzero ?M1) ?M4, padd pzero ?M3, padd (padd pzero ?M2) ?M4, padd (psub (padd pzero ?M1) ?M2) ?M3, ?M4, psub ?b10 ?b00, padd ?b00 ?b11)"
    by (auto simp: writable_def)
  from st_sum [OF P2 m0 s17, of Qsum0 QA00 QA01]
  obtain h18 where e18: "sum_m (view V QA00) (view V QA01) (view V Qsum0) h17 = Inr h18"
    and s18: "st V hc h18 (padd (padd pzero ?M1) ?M4, padd pzero ?M3, padd (padd pzero ?M2) ?M4, padd (psub (padd pzero ?M1) ?M2) ?M3, ?M4, padd ?a00 ?a01, padd ?b00 ?b11)"
    by (auto simp: writable_def)
  let ?M5 = "pmul m (padd ?a00 ?a01) ?b11"
  from st_rec [OF P2 m0 s18 _ _ _ _ IH, of Qsum0 QB11]
  obtain h19 where e19: "strassen_mul_recursion cutoff (view V Qsum0) (view V QB11) (view V QM) (view V QSR) h18 = Some (Inr h19)"
    and s19: "st V hc h19 (padd (padd pzero ?M1) ?M4, padd pzero ?M3, padd (padd pzero ?M2) ?M4, padd (psub (padd pzero ?M1) ?M2) ?M3, ?M5, padd ?a00 ?a01, padd ?b00 ?b11)"
    by (auto simp: writable_def)
  from st_sub [OF P2 m0 s19, of QC00 QC00 QM]
  obtain h20 where e20: "sub_m (view V QC00) (view V QM) (view V QC00) h19 = Inr h20"
    and s20: "st V hc h20 (psub (padd (padd pzero ?M1) ?M4) ?M5, padd pzero ?M3, padd (padd pzero ?M2) ?M4, padd (psub (padd pzero ?M1) ?M2) ?M3, ?M5, padd ?a00 ?a01, padd ?b00 ?b11)"
    by (auto simp: writable_def)
  from st_sum [OF P2 m0 s20, of QC01 QC01 QM]
  obtain h21 where e21: "sum_m (view V QC01) (view V QM) (view V QC01) h20 = Inr h21"
    and s21: "st V hc h21 (psub (padd (padd pzero ?M1) ?M4) ?M5, padd (padd pzero ?M3) ?M5, padd (padd pzero ?M2) ?M4, padd (psub (padd pzero ?M1) ?M2) ?M3, ?M5, padd ?a00 ?a01, padd ?b00 ?b11)"
    by (auto simp: writable_def)
  from st_sub [OF P2 m0 s21, of Qsum0 QA10 QA00]
  obtain h22 where e22: "sub_m (view V QA10) (view V QA00) (view V Qsum0) h21 = Inr h22"
    and s22: "st V hc h22 (psub (padd (padd pzero ?M1) ?M4) ?M5, padd (padd pzero ?M3) ?M5, padd (padd pzero ?M2) ?M4, padd (psub (padd pzero ?M1) ?M2) ?M3, ?M5, psub ?a10 ?a00, padd ?b00 ?b11)"
    by (auto simp: writable_def)
  from st_sum [OF P2 m0 s22, of Qsum1 QB00 QB01]
  obtain h23 where e23: "sum_m (view V QB00) (view V QB01) (view V Qsum1) h22 = Inr h23"
    and s23: "st V hc h23 (psub (padd (padd pzero ?M1) ?M4) ?M5, padd (padd pzero ?M3) ?M5, padd (padd pzero ?M2) ?M4, padd (psub (padd pzero ?M1) ?M2) ?M3, ?M5, psub ?a10 ?a00, padd ?b00 ?b01)"
    by (auto simp: writable_def)
  let ?M6 = "pmul m (psub ?a10 ?a00) (padd ?b00 ?b01)"
  from st_rec [OF P2 m0 s23 _ _ _ _ IH, of Qsum0 Qsum1]
  obtain h24 where e24: "strassen_mul_recursion cutoff (view V Qsum0) (view V Qsum1) (view V QM) (view V QSR) h23 = Some (Inr h24)"
    and s24: "st V hc h24 (psub (padd (padd pzero ?M1) ?M4) ?M5, padd (padd pzero ?M3) ?M5, padd (padd pzero ?M2) ?M4, padd (psub (padd pzero ?M1) ?M2) ?M3, ?M6, psub ?a10 ?a00, padd ?b00 ?b01)"
    by (auto simp: writable_def)
  from st_sum [OF P2 m0 s24, of QC11 QC11 QM]
  obtain h25 where e25: "sum_m (view V QC11) (view V QM) (view V QC11) h24 = Inr h25"
    and s25: "st V hc h25 (psub (padd (padd pzero ?M1) ?M4) ?M5, padd (padd pzero ?M3) ?M5, padd (padd pzero ?M2) ?M4, padd (padd (psub (padd pzero ?M1) ?M2) ?M3) ?M6, ?M6, psub ?a10 ?a00, padd ?b00 ?b01)"
    by (auto simp: writable_def)
  from st_sub [OF P2 m0 s25, of Qsum0 QA01 QA11]
  obtain h26 where e26: "sub_m (view V QA01) (view V QA11) (view V Qsum0) h25 = Inr h26"
    and s26: "st V hc h26 (psub (padd (padd pzero ?M1) ?M4) ?M5, padd (padd pzero ?M3) ?M5, padd (padd pzero ?M2) ?M4, padd (padd (psub (padd pzero ?M1) ?M2) ?M3) ?M6, ?M6, psub ?a01 ?a11, padd ?b00 ?b01)"
    by (auto simp: writable_def)
  from st_sum [OF P2 m0 s26, of Qsum1 QB10 QB11]
  obtain h27 where e27: "sum_m (view V QB10) (view V QB11) (view V Qsum1) h26 = Inr h27"
    and s27: "st V hc h27 (psub (padd (padd pzero ?M1) ?M4) ?M5, padd (padd pzero ?M3) ?M5, padd (padd pzero ?M2) ?M4, padd (padd (psub (padd pzero ?M1) ?M2) ?M3) ?M6, ?M6, psub ?a01 ?a11, padd ?b10 ?b11)"
    by (auto simp: writable_def)
  let ?M7 = "pmul m (psub ?a01 ?a11) (padd ?b10 ?b11)"
  from st_rec [OF P2 m0 s27 _ _ _ _ IH, of Qsum0 Qsum1]
  obtain h28 where e28: "strassen_mul_recursion cutoff (view V Qsum0) (view V Qsum1) (view V QM) (view V QSR) h27 = Some (Inr h28)"
    and s28: "st V hc h28 (psub (padd (padd pzero ?M1) ?M4) ?M5, padd (padd pzero ?M3) ?M5, padd (padd pzero ?M2) ?M4, padd (padd (psub (padd pzero ?M1) ?M2) ?M3) ?M6, ?M7, psub ?a01 ?a11, padd ?b10 ?b11)"
    by (auto simp: writable_def)
  from st_sum [OF P2 m0 s28, of QC00 QC00 QM]
  obtain h29 where e29: "sum_m (view V QC00) (view V QM) (view V QC00) h28 = Inr h29"
    and s29: "st V hc h29 (padd (psub (padd (padd pzero ?M1) ?M4) ?M5) ?M7, padd (padd pzero ?M3) ?M5, padd (padd pzero ?M2) ?M4, padd (padd (psub (padd pzero ?M1) ?M2) ?M3) ?M6, ?M7, psub ?a01 ?a11, padd ?b10 ?b11)"
    by (auto simp: writable_def)
  obtain A B C S where V: "V = (A, B, C, S)" by (cases V rule: prod_cases4)
  have run: "strassen_decompose (strassen_mul_recursion cutoff)
               (parent V OwnA) (parent V OwnB) (parent V OwnC) (parent V OwnS) hc = Some (Inr h29)"
    using e1 e2 e3 e4 e5 e6 e7 e8 e9 e10 e11 e12 e13 e14 e15 e16 e17 e18 e19 e20
      e21 e22 e23 e24 e25 e26 e27 e28 e29
    by (simp add: V strassen_decompose_def Let_def view_def then_R_Some_Inr)
  from s29 have fr: "frame (fp hc (parent V OwnC) \<union> fp hc (parent V OwnS)) hc h29"
    and c00: "rd h29 (view V QC00) = padd (psub (padd (padd pzero ?M1) ?M4) ?M5) ?M7"
    and c01: "rd h29 (view V QC01) = padd (padd pzero ?M3) ?M5"
    and c10: "rd h29 (view V QC10) = padd (padd pzero ?M2) ?M4"
    and c11: "rd h29 (view V QC11) = padd (padd (psub (padd pzero ?M1) ?M2) ?M3) ?M6"
    by (simp_all add: st_def)
  have P29: "pre (2 * m) V h29" using P2 by (simp add: pre_frame [OF fr])
  have blkA: "rd hc (view V sl) = blk m ?A (quad_x sl) (quad_y sl)" if "owner_of sl = OwnA" for sl
    using view_blk [OF P2 m0, of sl] that by simp
  have blkB: "rd hc (view V sl) = blk m ?B (quad_x sl) (quad_y sl)" if "owner_of sl = OwnB" for sl
    using view_blk [OF P2 m0, of sl] that by simp
  have quadrant: "rd h29 (view V sl) x y = pmul (2 * m) ?A ?B (x + quad_x sl * m) (y + quad_y sl * m)"
    if "owner_of sl = OwnC" "in_sq m x y" for sl x y
  proof -
    have blocks: "pmul (2 * m) ?A ?B (x + ux * m) (y + uy * m) =
           pmul m (blk m ?A ux 0) (blk m ?B 0 uy) x y + pmul m (blk m ?A ux 1) (blk m ?B 1 uy) x y"
      if "ux \<in> {0, 1}" "uy \<in> {0, 1}" for ux uy
      using \<open>in_sq m x y\<close> that by (rule pmul_blocks)
    from that(1) consider "sl = QC00" | "sl = QC01" | "sl = QC10" | "sl = QC11"
      by (cases sl) simp_all
    then show ?thesis
    proof cases
      case 1
      show ?thesis
        unfolding 1 c00 strassen_c00 using blocks [of 0 0] by (simp add: blkA blkB)
    next
      case 2
      show ?thesis
        unfolding 2 c01 strassen_c01 using blocks [of 0 1] by (simp add: blkA blkB)
    next
      case 3
      show ?thesis
        unfolding 3 c10 strassen_c10 using blocks [of 1 0] by (simp add: blkA blkB)
    next
      case 4
      show ?thesis
        unfolding 4 c11 strassen_c11 using blocks [of 1 1] by (simp add: blkA blkB)
    qed
  qed
  have dimC: "sm_dimension (parent V OwnC) = 2 * m" using P2 by (simp add: pre_def)
  have "rd h29 (parent V OwnC) x y = pmul (2 * m) ?A ?B x y" for x y
  proof (cases "in_sq (2 * m) x y")
    case False
    then show ?thesis
      using rd_outside [of "parent V OwnC" x y h29] by (simp add: dimC pmul_def)
  next
    case True
    define sl where "sl = (if x < m then (if y < m then QC00 else QC01) else (if y < m then QC10 else QC11))"
    have own: "owner_of sl = OwnC" by (simp add: sl_def)
    have sq: "in_sq m (x - quad_x sl * m) (y - quad_y sl * m)"
      using True by (auto simp: sl_def in_sq_def)
    have "rd h29 (view V sl) (x - quad_x sl * m) (y - quad_y sl * m) = rd h29 (parent V OwnC) x y"
      using view_blk [OF P29 m0, of sl] sq by (simp add: own blk_def)
    with quadrant [OF own sq] show ?thesis by simp
  qed
  then have "rd h29 (parent V OwnC) = pmul (2 * m) ?A ?B" by (intro ext)
  with run fr show ?thesis by blast
qed

lemma rd_pmul_outside:
  "\<not> in_sq n x y \<Longrightarrow> pmul n X Y x y = 0"
  by (simp add: pmul_def)

lemma recursion_correct:
  fixes h :: "'a::ring heap"
  assumes "1 \<le> cutoff" "pre n V h"
  shows "\<exists>h'. strassen_mul_recursion cutoff (parent V OwnA) (parent V OwnB) (parent V OwnC) (parent V OwnS) h
                 = Some (Inr h') \<and>
              frame (fp h (parent V OwnC) \<union> fp h (parent V OwnS)) h h' \<and>
              rd h' (parent V OwnC) = pmul n (rd h (parent V OwnA)) (rd h (parent V OwnB))"
  using assms(2)
proof (induction "nat n" arbitrary: n V h rule: less_induct)
  case less
  let ?A = "parent V OwnA" and ?B = "parent V OwnB" and ?C = "parent V OwnC" and ?S = "parent V OwnS"
  note P = less.prems
  have dims: "sm_dimension ?C = n" and solC: "solid h ?C"
    and disA: "fp h ?A \<inter> fp h ?C = {}" and disB: "fp h ?B \<inter> fp h ?C = {}"
    and strides: "0 \<le> stride ?A" "0 \<le> stride ?B"
    using P by (simp_all add: pre_def)
  from submatrix_clear_spec [OF solC] obtain hc where
    clr: "submatrix_clear ?C h = Inr hc" and frc: "frame (fp h ?C) h hc"
    and zero: "\<And>x y. rd hc ?C x y = 0"
    by blast
  have Pc: "pre n V hc" using P by (simp add: pre_frame [OF frc])
  have Ac: "rd hc ?A = rd h ?A" using frc disA by (intro ext frame_rd)
  have Bc: "rd hc ?B = rd h ?B" using frc disB by (intro ext frame_rd)
  have frame_up: "frame (fp h ?C \<union> fp h ?S) h h'"
    if "frame (fp hc ?C \<union> fp hc ?S) hc h'" for h'
    using frame_trans [OF frc that] by (rule frame_mono) (auto simp: frame_fp [OF frc])
  show ?case
  proof (cases "n smod 2 = 1 \<or> n \<le> cutoff")
    case True
    then have unfold: "strassen_mul_recursion cutoff ?A ?B ?C ?S h = Some (linear_mul ?A ?B ?C hc)"
      by (subst strassen_mul_recursion.simps) (simp add: clr then_R_Some_Inr dims)
    from linear_mul_spec [of hc ?C ?A ?B] solC strides disA disB
    obtain h' where h': "linear_mul ?A ?B ?C hc = Inr h'" "frame (fp hc ?C) hc h'"
      "\<And>x y. in_sq n x y \<Longrightarrow> rd h' ?C x y = rd hc ?C x y + (\<Sum>k\<in>{0..<n}. rd hc ?A x k * rd hc ?B k y)"
      by (auto simp: frame_solid [OF frc] frame_fp [OF frc] dims)
    have "rd h' ?C x y = pmul n (rd h ?A) (rd h ?B) x y" for x y
      using h'(3) [of x y] rd_outside [of ?C x y h']
      by (cases "in_sq n x y") (simp_all add: zero Ac Bc pmul_def dims)
    then have "rd h' ?C = pmul n (rd h ?A) (rd h ?B)" by (intro ext)
    moreover have "frame (fp hc ?C \<union> fp hc ?S) hc h'"
      using h'(2) by (rule frame_mono) simp
    ultimately show ?thesis
      using unfold h'(1) frame_up by auto
  next
    case False
    with assms(1) have n2: "2 \<le> n" by simp
    with False have "n mod 2 = 0" by (simp add: smod_2_nonneg)
    then obtain m where m: "n = 2 * m" by (auto simp: mod_eq_0_iff_dvd)
    with n2 have m1: "1 \<le> m" by simp
    then have m0: "0 \<le> m" by simp
    have unfold: "strassen_mul_recursion cutoff ?A ?B ?C ?S h =
        strassen_decompose (strassen_mul_recursion cutoff) ?A ?B ?C ?S hc"
      using False by (subst strassen_mul_recursion.simps) (simp add: clr then_R_Some_Inr dims)
    have IH: "\<exists>h'. strassen_mul_recursion cutoff (parent V' OwnA) (parent V' OwnB) (parent V' OwnC) (parent V' OwnS) h = Some (Inr h') \<and>
            frame (fp h (parent V' OwnC) \<union> fp h (parent V' OwnS)) h h' \<and>
            rd h' (parent V' OwnC) = pmul m (rd h (parent V' OwnA)) (rd h (parent V' OwnB))"
      if "pre m V' h" for V' and h :: "'a heap"
      using that m m1 by (intro less.hyps) simp_all
    have "rd hc ?C = pzero" by (intro ext) (simp add: zero pzero_def)
    from strassen_decompose_correct [OF Pc [unfolded m] m0 this IH]
    obtain h' where h': "strassen_decompose (strassen_mul_recursion cutoff) ?A ?B ?C ?S hc = Some (Inr h')"
      "frame (fp hc ?C \<union> fp hc ?S) hc h'"
      "rd h' ?C = pmul (2 * m) (rd hc ?A) (rd hc ?B)"
      by blast
    from h' show ?thesis
      using unfold frame_up by (auto simp: m Ac Bc)
  qed
qed

section \<open>Termination\<close>

lemma then_R_returns:
  "(\<exists>y. then_R r k = Some y) \<longleftrightarrow>
     (\<exists>y. r = Some y) \<and> (\<forall>h. r = Some (Inr h) \<longrightarrow> (\<exists>y. k h = Some y))"
  by (cases r) (auto simp: then_R_def split: sum.splits)

lemma strassen_decompose_returns:
  assumes "\<And>a b h. \<exists>y. recur a b (submatrix_sub S 0 0) (submatrix_sub S 0 1) h = Some y"
  shows "\<exists>y. strassen_decompose recur A B C S h = Some y"
  by (simp add: strassen_decompose_def Let_def then_R_returns assms)

lemma recursion_returns:
  fixes h :: "'a::ring heap"
  assumes "1 \<le> cutoff"
  shows "\<exists>y. strassen_mul_recursion cutoff A B C S h = Some y"
proof (induction "nat (sm_dimension S)" arbitrary: A B C S h rule: less_induct)
  case less
  let ?d = "ceil_divide (sm_dimension S)"
  have callee: "\<exists>y. strassen_mul_recursion cutoff a b (submatrix_sub S 0 0) (submatrix_sub S 0 1) h' = Some y"
    for a b and h' :: "'a heap"
  proof (cases "2 \<le> sm_dimension S")
    case True
    then have "nat (sm_dimension (submatrix_sub S 0 1)) < nat (sm_dimension S)"
      using ceil_divide_less [of "sm_dimension S"] by (simp add: sub_fields)
    then show ?thesis by (rule less.hyps)
  next
    case False
    then have "?d \<le> 1" by (intro ceil_divide_le_1) simp
    then have "?d smod 2 = 1 \<or> ?d \<le> cutoff"
      using assms by (cases "?d = 1") auto
    then show ?thesis
      by (subst strassen_mul_recursion.simps) (simp add: then_R_returns sub_fields)
  qed
  show ?case
    by (subst strassen_mul_recursion.simps)
       (simp add: then_R_returns strassen_decompose_returns [of "strassen_mul_recursion cutoff", OF callee])
qed

section \<open>The multiplier on separate buffers\<close>

lemma fp_buf: "(p, k) \<in> fp h s \<Longrightarrow> p = buf s"
  by (auto simp: fp_def)

lemma fp_disjoint_buf: "buf s \<noteq> buf t \<Longrightarrow> fp h s \<inter> fp h t = {}"
  by (auto simp: fp_def)

lemma frame_cells:
  assumes "frame F h h'" "\<And>k. (p, k) \<notin> F"
  shows "cells h' p = cells h p"
  using assms by (intro nth_equalityI) (simp_all add: frame_def)

lemma frame_length: "frame F h h' \<Longrightarrow> length (cells h' p) = length (cells h p)"
  by (simp add: frame_def)

lemma frame_next: "frame F h h' \<Longrightarrow> next_addr h' = next_addr h"
  by (simp add: frame_def)

lemma alloc_fields:
  "fst (matrix_data_new d h) = \<lparr>md_dimension = d, md_data = next_addr h\<rparr>"
  "cells (snd (matrix_data_new d h)) = (cells h)(next_addr h := replicate (nat (d * d)) 0)"
  "next_addr (snd (matrix_data_new d h)) = Suc (next_addr h)"
  by (simp_all add: matrix_data_new_def)

lemma rd_cells_cong:
  assumes "cells h' (buf s) = cells h (buf s)"
  shows "rd h' s = rd h s"
  using assms by (intro ext) (simp add: rd_def in_bounds_iff)

lemma solid_cells_cong:
  assumes "length (cells h' (buf s)) = length (cells h (buf s))"
  shows "solid h' s = solid h s"
  using assms by (simp add: solid_def)

lemma solid_new:
  assumes "0 \<le> d"
  shows "solid (snd (matrix_data_new d h)) (submatrix_new (fst (matrix_data_new d h)))"
  using assms by (simp add: solid_def alloc_fields submatrix_new_def buf_def stride_def)

lemma new_view_fields:
  "buf (submatrix_new m) = md_data m" "stride (submatrix_new m) = md_dimension m"
  "sm_dimension (submatrix_new m) = md_dimension m" "sm_i (submatrix_new m) = 0"
  "sm_j (submatrix_new m) = 0"
  by (simp_all add: submatrix_new_def buf_def stride_def)

lemma resize_fields:
  "buf (s\<lparr>sm_dimension := d\<rparr>) = buf s" "stride (s\<lparr>sm_dimension := d\<rparr>) = stride s"
  by (simp_all add: buf_def stride_def)

lemma strassen_mul_correct:
  fixes h :: "'a::ring heap"
  assumes cut: "1 \<le> cutoff"
    and c: "solid h c" "0 \<le> sm_dimension c"
    and strides: "0 \<le> stride a" "0 \<le> stride b"
    and bufs: "buf a \<noteq> buf c" "buf b \<noteq> buf c"
    and alloc: "buf a < next_addr h" "buf b < next_addr h" "buf c < next_addr h"
  shows "\<exists>h'. strassen_mul a b c cutoff h = Some (Inr h') \<and>
           rd h' c = pmul (sm_dimension c) (rd h (a\<lparr>sm_dimension := sm_dimension c\<rparr>))
                                           (rd h (b\<lparr>sm_dimension := sm_dimension c\<rparr>)) \<and>
           (\<forall>p. p \<noteq> buf c \<longrightarrow> p \<noteq> next_addr h \<longrightarrow> cells h' p = cells h p) \<and>
           (\<forall>p. p \<noteq> next_addr h \<longrightarrow> length (cells h' p) = length (cells h p)) \<and>
           next_addr h' = Suc (next_addr h)"
proof -
  define n where "n = sm_dimension c"
  define a' where "a' = a\<lparr>sm_dimension := n\<rparr>"
  define b' where "b' = b\<lparr>sm_dimension := n\<rparr>"
  define h1 where "h1 = snd (matrix_data_new n h)"
  define S where "S = submatrix_new (fst (matrix_data_new n h))"
  let ?V = "(a', b', c, S)"
  have bufS: "buf S = next_addr h" by (simp add: S_def new_view_fields alloc_fields)
  have keep: "cells h1 p = cells h p" if "p \<noteq> next_addr h" for p
    using that by (simp add: h1_def alloc_fields)
  have solS: "solid h1 S" unfolding h1_def S_def using c(2) by (intro solid_new) (simp add: n_def)
  have solC: "solid h1 c"
    using c(1) alloc(3) by (simp add: solid_cells_cong [of h1 c h] keep)
  have "pre n ?V h1"
    unfolding pre_def
  proof (intro conjI allI impI)
    fix w
    show "sm_dimension (parent ?V w) = n"
      by (cases w) (simp_all add: a'_def b'_def n_def S_def new_view_fields alloc_fields)
    show "0 \<le> stride (parent ?V w)"
      using strides c(2) solid_stride [OF c(1)]
      by (cases w) (simp_all add: a'_def b'_def resize_fields S_def new_view_fields alloc_fields n_def)
    show "fp h1 (parent ?V w) \<inter> fp h1 (parent ?V OwnC) = {}" if "w \<noteq> OwnC"
      using that bufs alloc bufS
      by (cases w) (simp_all add: fp_disjoint_buf a'_def b'_def resize_fields)
    show "fp h1 (parent ?V w) \<inter> fp h1 (parent ?V OwnS) = {}" if "w \<noteq> OwnS"
      using that bufs alloc bufS
      by (cases w) (simp_all add: fp_disjoint_buf a'_def b'_def resize_fields)
  qed (use solS solC in simp_all)
  from recursion_correct [OF cut this] obtain h' where
    run: "strassen_mul_recursion cutoff a' b' c S h1 = Some (Inr h')" and
    fr: "frame (fp h1 c \<union> fp h1 S) h1 h'" and
    val: "rd h' c = pmul n (rd h1 a') (rd h1 b')"
    by auto
  have "strassen_mul a b c cutoff h = Some (Inr h')"
    using run
    by (simp add: strassen_mul_def Let_def case_prod_beta a'_def b'_def S_def h1_def n_def)
  moreover have "rd h1 a' = rd h a'" "rd h1 b' = rd h b'"
    using alloc by (intro rd_cells_cong; simp add: keep a'_def b'_def resize_fields)+
  moreover have "cells h' p = cells h p" if "p \<noteq> buf c" "p \<noteq> next_addr h" for p
  proof -
    have "(p, k) \<notin> fp h1 c \<union> fp h1 S" for k
      using that bufS fp_buf [of p k h1] by auto
    with fr have "cells h' p = cells h1 p" by (rule frame_cells)
    with that show ?thesis by (simp add: keep)
  qed
  moreover have "length (cells h' p) = length (cells h p)" if "p \<noteq> next_addr h" for p
    using that by (simp add: frame_length [OF fr] keep)
  moreover have "next_addr h' = Suc (next_addr h)"
    by (simp add: frame_next [OF fr] h1_def alloc_fields)
  ultimately show ?thesis
    using val by (simp add: a'_def b'_def n_def)
qed

section \<open>The run of \<open>main\<close>\<close>

text \<open>
  Up to the side 46340 the mathematical integers are the 32-bit arithmetic of the
  program: the size \<open>dimension * dimension\<close> of a buffer and the index
  \<open>i + dimension * j\<close> of a cell, for coordinates below the padded side, are not changed by
  the wrap-around.
\<close>

lemma size_fits_32_bits:
  assumes "0 \<le> d" "d \<le> 46340"
  shows "wrap32 (d * d) = d * d"
proof -
  have "d * d \<le> 46340 * 46340" using assms by (intro mult_mono) simp_all
  moreover have "0 \<le> d * d" by simp
  ultimately show ?thesis by (intro wrap32_id) linarith+
qed

lemma index_fits_32_bits:
  assumes "0 \<le> i" "i < P" "0 \<le> j" "j < P" "0 \<le> D" "D \<le> 46340" "P \<le> 46340"
  shows "wrap32 (D * j) = D * j \<and> wrap32 (i + D * j) = i + D * j"
proof -
  have "D * j \<le> 46340 * 46339" using assms by (intro mult_mono) simp_all
  moreover have "0 \<le> D * j" using assms by simp
  ultimately show ?thesis using assms(1,2,7) by (intro conjI wrap32_id) linarith+
qed

lemma halving_bound:
  assumes "1 \<le> x"
  shows "1 \<le> (ceil_divide ^^ k) x \<and> x \<le> (ceil_divide ^^ k) x * 2 ^ k"
proof (induction k)
  case 0
  with assms show ?case by simp
next
  case (Suc k)
  let ?y = "(ceil_divide ^^ k) x"
  from Suc have y: "1 \<le> ?y" "x \<le> ?y * 2 ^ k" by simp_all
  have "?y \<le> 2 * ceil_divide ?y" using y(1) by (simp add: ceil_divide_nonneg)
  then have "?y * 2 ^ k \<le> 2 * ceil_divide ?y * 2 ^ k"
    by (intro mult_right_mono) simp_all
  with y(2) have "x \<le> 2 * ceil_divide ?y * 2 ^ k" by (rule order_trans)
  with ceil_divide_pos [OF y(1)] show ?case by (simp add: mult_ac)
qed

lemma padding_size_returns:
  assumes "1 \<le> N" "N \<le> 1073741824" "1 \<le> C"
  shows "\<exists>P. padding_size N C = Some P \<and> N \<le> P"
proof -
  from padding_size_exact [OF assms] obtain k where
    "padding_size N C = Some ((ceil_divide ^^ k) N * 2 ^ k)" by blast
  with halving_bound [OF assms(1), of k] show ?thesis by simp
qed

lemma rd_origin_view:
  assumes "sm_i s = 0" "sm_j s = 0"
  shows "rd h s x y =
     (if 0 \<le> x \<and> 0 \<le> y \<and> x + stride s * y < int (length (cells h (buf s))) \<and> in_sq (sm_dimension s) x y
      then cells h (buf s) ! nat (x + stride s * y) else 0)"
  using assms by (simp add: rd_def in_bounds_iff index_of_def)

lemma rd_wide_view:
  fixes h :: "'a::zero heap"
  assumes "length (cells h (md_data m)) = nat (md_dimension m * md_dimension m)"
    and "md_dimension m \<le> P" "0 \<le> x" "x < md_dimension m" "0 \<le> y" "y < P"
  shows "rd h ((submatrix_new m)\<lparr>sm_dimension := P\<rparr>) x y =
           (if y < md_dimension m then cells h (md_data m) ! nat (x + md_dimension m * y) else 0)"
proof -
  let ?N = "md_dimension m"
  have len: "int (length (cells h (md_data m))) = ?N * ?N" using assms(1) by simp
  have "x + ?N * y < ?N * ?N \<longleftrightarrow> y < ?N"
  proof (cases "y < ?N")
    case True
    with index_in_square [of x ?N y] assms(3-5) show ?thesis by simp
  next
    case False
    with index_past_square [of x ?N y] assms(3-5) show ?thesis by simp
  qed
  then show ?thesis
    using assms(2-6)
    by (simp add: rd_origin_view new_view_fields resize_fields len in_sq_def)
qed

lemma rd_narrow_view:
  fixes h :: "'a::zero heap"
  assumes "length (cells h (md_data m)) = nat (md_dimension m * md_dimension m)"
    and "N \<le> md_dimension m" "in_sq N x y"
  shows "rd h ((submatrix_new m)\<lparr>sm_dimension := N\<rparr>) x y = cells h (md_data m) ! nat (x + md_dimension m * y)"
    and "md_get h m x y = Inr (cells h (md_data m) ! nat (x + md_dimension m * y))"
proof -
  let ?P = "md_dimension m"
  have len: "int (length (cells h (md_data m))) = ?P * ?P" using assms(1) by simp
  have ix: "0 \<le> x + ?P * y \<and> x + ?P * y < ?P * ?P"
    using assms(2,3) by (intro index_in_square) (simp_all add: in_sq_def)
  then show "rd h ((submatrix_new m)\<lparr>sm_dimension := N\<rparr>) x y = cells h (md_data m) ! nat (x + ?P * y)"
    using assms(3)
    by (simp add: rd_origin_view new_view_fields resize_fields len in_sq_def)
  from ix show "md_get h m x y = Inr (cells h (md_data m) ! nat (x + ?P * y))"
    by (simp add: md_get_def vector_at_def len)
qed

lemma rd_full_view:
  fixes h :: "'a::zero heap"
  assumes "length (cells h (md_data m)) = nat (md_dimension m * md_dimension m)"
    and "in_sq (md_dimension m) x y"
  shows "rd h (submatrix_new m) x y = cells h (md_data m) ! nat (x + md_dimension m * y)"
  using rd_narrow_view(1) [OF assms(1) order_refl assms(2)]
  by (simp add: submatrix_new_def)

lemma for_all_E_true:
  "(\<And>x. x \<in> set xs \<Longrightarrow> test x = Inr True) \<Longrightarrow> for_all_E xs test = Inr True"
  by (induction xs) (simp_all add: then_E_def)

lemma sum_truncate:
  fixes f :: "int \<Rightarrow> 'a::comm_monoid_add"
  assumes "N \<le> P" "\<And>k. N \<le> k \<Longrightarrow> k < P \<Longrightarrow> f k = 0"
  shows "(\<Sum>k\<in>{0..<P}. f k) = (\<Sum>k\<in>{0..<N}. f k)"
  using assms by (intro sum.mono_neutral_right) auto

lemma main_run:
  fixes adata bdata :: "'a::ring list"
  assumes N: "1 \<le> N" and cut: "1 \<le> cutoff"
    and la: "length adata = nat (N * N)" and lb: "length bdata = nat (N * N)"
    and bound: "N \<le> 1073741824"
  shows "\<exists>P h. N \<le> P \<and> padding_size N cutoff = Some P \<and>
      main_strassen N cutoff adata bdata =
        Some (Inr (\<lparr>md_dimension = N, md_data = 0\<rparr>, \<lparr>md_dimension = N, md_data = 1\<rparr>,
                   (submatrix_new \<lparr>md_dimension = P, md_data = 2\<rparr>)\<lparr>sm_dimension := N\<rparr>, h)) \<and>
      cells h 0 = adata \<and> cells h 1 = bdata \<and> length (cells h 2) = nat (P * P) \<and>
      next_addr h = 4 \<and>
      (\<forall>i j. in_sq N i j \<longrightarrow>
         cells h 2 ! nat (i + P * j) = (\<Sum>k\<in>{0..<N}. adata ! nat (i + N * k) * bdata ! nat (k + N * j)))"
proof -
  from padding_size_returns [OF N bound cut] obtain P where P: "padding_size N cutoff = Some P" "N \<le> P"
    by blast
  define a where "a = \<lparr>md_dimension = N, md_data = 0\<rparr>"
  define b where "b = \<lparr>md_dimension = N, md_data = 1\<rparr>"
  define cp where "cp = \<lparr>md_dimension = P, md_data = 2\<rparr>"
  define h3 :: "'a heap" where "h3 = snd (matrix_data_new P (populate b bdata (populate a adata
      (snd (matrix_data_new N (snd (matrix_data_new N empty_heap)))))))"
  have h3: "cells h3 0 = adata" "cells h3 (Suc 0) = bdata" "cells h3 2 = replicate (nat (P * P)) 0"
    "next_addr h3 = 3"
    by (simp_all add: h3_def matrix_data_new_def populate_def empty_heap_def a_def b_def)
  have start: "main_strassen N cutoff adata bdata =
      then_R (strassen_mul (submatrix_new a) (submatrix_new b) (submatrix_new cp) cutoff h3)
        (\<lambda>h. Some (Inr (a, b, (submatrix_new cp)\<lparr>sm_dimension := N\<rparr>, h)))"
    by (simp add: main_strassen_def P h3_def a_def b_def cp_def matrix_data_new_def populate_def
        empty_heap_def Let_def numeral_2_eq_2)
  have P0: "0 \<le> P" using N P(2) by simp
  have solC: "solid h3 (submatrix_new cp)"
    using P0 by (simp add: solid_def new_view_fields cp_def h3)
  from strassen_mul_correct [OF cut solC, of "submatrix_new a" "submatrix_new b"]
  obtain h where h: "strassen_mul (submatrix_new a) (submatrix_new b) (submatrix_new cp) cutoff h3 = Some (Inr h)"
    "rd h (submatrix_new cp) = pmul P (rd h3 ((submatrix_new a)\<lparr>sm_dimension := P\<rparr>))
                                      (rd h3 ((submatrix_new b)\<lparr>sm_dimension := P\<rparr>))"
    "\<And>p. p \<noteq> 2 \<Longrightarrow> p \<noteq> 3 \<Longrightarrow> cells h p = cells h3 p"
    "\<And>p. p \<noteq> 3 \<Longrightarrow> length (cells h p) = length (cells h3 p)"
    "next_addr h = 4"
    using N P0 by (auto simp: new_view_fields a_def b_def cp_def h3)
  have val: "cells h 2 ! nat (i + P * j) = (\<Sum>k\<in>{0..<N}. adata ! nat (i + N * k) * bdata ! nat (k + N * j))"
    if sq: "in_sq N i j" for i j
  proof -
    have sqP: "in_sq P i j" using sq P(2) by (simp add: in_sq_def)
    have lenC: "length (cells h (md_data cp)) = nat (md_dimension cp * md_dimension cp)"
      using h(4) [of 2] by (simp add: cp_def h3)
    have "cells h 2 ! nat (i + P * j) = rd h (submatrix_new cp) i j"
      using rd_full_view [OF lenC, of i j] sqP by (simp add: cp_def)
    also have "\<dots> = (\<Sum>k\<in>{0..<P}. rd h3 ((submatrix_new a)\<lparr>sm_dimension := P\<rparr>) i k *
                                  rd h3 ((submatrix_new b)\<lparr>sm_dimension := P\<rparr>) k j)"
      using sqP by (simp add: h(2) pmul_def)
    also have "\<dots> = (\<Sum>k\<in>{0..<N}. rd h3 ((submatrix_new a)\<lparr>sm_dimension := P\<rparr>) i k *
                                  rd h3 ((submatrix_new b)\<lparr>sm_dimension := P\<rparr>) k j)"
    proof (rule sum_truncate [OF P(2)])
      fix k assume k: "N \<le> k" "k < P"
      have "rd h3 ((submatrix_new a)\<lparr>sm_dimension := P\<rparr>) i k = 0"
        using rd_wide_view [of h3 a P i k] sq k N P(2) la
        by (simp add: a_def h3 in_sq_def)
      then show "rd h3 ((submatrix_new a)\<lparr>sm_dimension := P\<rparr>) i k *
                 rd h3 ((submatrix_new b)\<lparr>sm_dimension := P\<rparr>) k j = 0"
        by simp
    qed
    also have "\<dots> = (\<Sum>k\<in>{0..<N}. adata ! nat (i + N * k) * bdata ! nat (k + N * j))"
    proof (rule sum.cong [OF refl])
      fix k assume "k \<in> {0..<N}"
      then have k: "0 \<le> k" "k < N" by simp_all
      have "rd h3 ((submatrix_new a)\<lparr>sm_dimension := P\<rparr>) i k = adata ! nat (i + N * k)"
        using rd_wide_view [of h3 a P i k] sq k P(2) la
        by (simp add: a_def h3 in_sq_def)
      moreover have "rd h3 ((submatrix_new b)\<lparr>sm_dimension := P\<rparr>) k j = bdata ! nat (k + N * j)"
        using rd_wide_view [of h3 b P k j] sq k P(2) lb
        by (simp add: b_def h3 in_sq_def)
      ultimately show "rd h3 ((submatrix_new a)\<lparr>sm_dimension := P\<rparr>) i k *
                 rd h3 ((submatrix_new b)\<lparr>sm_dimension := P\<rparr>) k j =
               adata ! nat (i + N * k) * bdata ! nat (k + N * j)"
        by simp
    qed
    finally show ?thesis .
  qed
  have "cells h 0 = adata" "cells h 1 = bdata" "length (cells h 2) = nat (P * P)"
    using h(3) [of 0] h(3) [of 1] h(4) [of 2] by (simp_all add: h3)
  moreover have "main_strassen N cutoff adata bdata =
      Some (Inr (a, b, (submatrix_new cp)\<lparr>sm_dimension := N\<rparr>, h))"
    by (simp add: start h(1) then_R_Some_Inr)
  ultimately show ?thesis
    using P h(5) val unfolding a_def b_def cp_def by blast
qed

lemma main_linear_run:
  fixes h :: "'a::ring heap"
  assumes N: "1 \<le> N"
    and h: "cells h 0 = adata" "cells h 1 = bdata" "next_addr h = 4"
    and la: "length adata = nat (N * N)" and lb: "length bdata = nat (N * N)"
  shows "\<exists>h'. main_linear N \<lparr>md_dimension = N, md_data = 0\<rparr> \<lparr>md_dimension = N, md_data = 1\<rparr> h =
               Inr (\<lparr>md_dimension = N, md_data = 4\<rparr>, h') \<and>
             (\<forall>p. p \<noteq> 4 \<longrightarrow> cells h' p = cells h p) \<and>
             length (cells h' 4) = nat (N * N) \<and>
             (\<forall>i j. in_sq N i j \<longrightarrow>
                cells h' 4 ! nat (i + N * j) =
                  (\<Sum>k\<in>{0..<N}. adata ! nat (i + N * k) * bdata ! nat (k + N * j)))"
proof -
  define a where "a = \<lparr>md_dimension = N, md_data = 0\<rparr>"
  define b where "b = \<lparr>md_dimension = N, md_data = 1\<rparr>"
  define chk where "chk = \<lparr>md_dimension = N, md_data = 4\<rparr>"
  define h4 where "h4 = snd (matrix_data_new N h)"
  have new: "fst (matrix_data_new N h) = chk" by (simp add: alloc_fields chk_def h)
  have h4: "cells h4 0 = adata" "cells h4 (Suc 0) = bdata" "cells h4 4 = replicate (nat (N * N)) 0"
    using h by (simp_all add: h4_def alloc_fields)
  have keep: "cells h4 p = cells h p" if "p \<noteq> 4" for p
    using that by (simp add: h4_def alloc_fields h)
  have sol: "solid h4 (submatrix_new chk)"
    using solid_new [of N h] N by (simp add: new h4_def)
  from linear_mul_spec [OF sol, of "submatrix_new a" "submatrix_new b"]
  obtain h' where h': "linear_mul (submatrix_new a) (submatrix_new b) (submatrix_new chk) h4 = Inr h'"
    "frame (fp h4 (submatrix_new chk)) h4 h'"
    "\<And>x y. in_sq N x y \<Longrightarrow> rd h' (submatrix_new chk) x y =
        rd h4 (submatrix_new chk) x y +
        (\<Sum>k\<in>{0..<N}. rd h4 (submatrix_new a) x k * rd h4 (submatrix_new b) k y)"
    using N by (auto simp: new_view_fields a_def b_def chk_def fp_disjoint_buf)
  have run: "main_linear N a b h = Inr (chk, h')"
    using h'(1) new by (simp add: main_linear_def case_prod_beta h4_def then_E_def)
  have other: "cells h' p = cells h p" if "p \<noteq> 4" for p
  proof -
    have "(p, k) \<notin> fp h4 (submatrix_new chk)" for k
      using that fp_buf [of p k h4 "submatrix_new chk"] by (auto simp: new_view_fields chk_def)
    with h'(2) have "cells h' p = cells h4 p" by (rule frame_cells)
    with that show ?thesis by (simp add: keep)
  qed
  have len: "length (cells h' 4) = nat (N * N)"
    by (simp add: frame_length [OF h'(2)] h4)
  have val: "cells h' 4 ! nat (i + N * j) = (\<Sum>k\<in>{0..<N}. adata ! nat (i + N * k) * bdata ! nat (k + N * j))"
    if sq: "in_sq N i j" for i j
  proof -
    have ix: "0 \<le> i + N * j \<and> i + N * j < N * N"
      using sq by (intro index_in_square) (simp_all add: in_sq_def)
    have "cells h' 4 ! nat (i + N * j) = rd h' (submatrix_new chk) i j"
      using rd_full_view [of h' chk i j] sq len by (simp add: chk_def)
    also have "\<dots> = rd h4 (submatrix_new chk) i j +
        (\<Sum>k\<in>{0..<N}. rd h4 (submatrix_new a) i k * rd h4 (submatrix_new b) k j)"
      using sq by (rule h'(3))
    also have "rd h4 (submatrix_new chk) i j = 0"
      using rd_full_view [of h4 chk i j] sq ix by (simp add: chk_def h4 nat_less_iff)
    also have "(\<Sum>k\<in>{0..<N}. rd h4 (submatrix_new a) i k * rd h4 (submatrix_new b) k j) =
        (\<Sum>k\<in>{0..<N}. adata ! nat (i + N * k) * bdata ! nat (k + N * j))"
    proof (rule sum.cong [OF refl])
      fix k assume "k \<in> {0..<N}"
      then have k: "in_sq N i k" "in_sq N k j" using sq by (simp_all add: in_sq_def)
      have "rd h4 (submatrix_new a) i k = adata ! nat (i + N * k)"
        using rd_full_view [of h4 a i k] k(1) la by (simp add: a_def h4)
      moreover have "rd h4 (submatrix_new b) k j = bdata ! nat (k + N * j)"
        using rd_full_view [of h4 b k j] k(2) lb by (simp add: b_def h4)
      ultimately show "rd h4 (submatrix_new a) i k * rd h4 (submatrix_new b) k j =
          adata ! nat (i + N * k) * bdata ! nat (k + N * j)"
        by simp
    qed
    finally show ?thesis by simp
  qed
  from run other len val show ?thesis
    unfolding a_def b_def chk_def by blast
qed

lemma submatrix_eq_true:
  assumes "sm_dimension s = sm_dimension t"
    and "\<And>x y. in_sq (sm_dimension t) x y \<Longrightarrow>
           \<exists>u. md_get h (sm_data s) x y = Inr u \<and> md_get h (sm_data t) x y = Inr u"
  shows "submatrix_eq h s t = Inr True"
proof -
  have "for_all_E [0 .. sm_dimension t - 1] (\<lambda>y.
          then_E (md_get h (sm_data s) x y) (\<lambda>u.
          then_E (md_get h (sm_data t) x y) (\<lambda>v. Inr (u = v)))) = Inr True"
    if "x \<in> set [0 .. sm_dimension t - 1]" for x
  proof (rule for_all_E_true)
    fix y assume "y \<in> set [0 .. sm_dimension t - 1]"
    with that have "in_sq (sm_dimension t) x y" by (simp add: in_sq_def)
    from assms(2) [OF this] show "then_E (md_get h (sm_data s) x y) (\<lambda>u.
          then_E (md_get h (sm_data t) x y) (\<lambda>v. Inr (u = v))) = Inr True"
      by (auto simp: then_E_def)
  qed
  then have "for_all_E [0 .. sm_dimension t - 1] (\<lambda>x.
      for_all_E [0 .. sm_dimension t - 1] (\<lambda>y.
          then_E (md_get h (sm_data s) x y) (\<lambda>u.
          then_E (md_get h (sm_data t) x y) (\<lambda>v. Inr (u = v))))) = Inr True"
    by (rule for_all_E_true)
  with assms(1) show ?thesis by (simp add: submatrix_eq_def)
qed

text \<open>
  Claim C1.  For every dimension \<open>N \<ge> 1\<close>, every cutoff at least 1 and all \<open>N \<times> N\<close> inputs
  (the lists of the \<open>N\<^sup>2\<close> values that \<open>main\<close> stores in the buffers \<open>a\<close> and \<open>b\<close>), the run
  of \<open>strassen_mul\<close> on the padded output buffer returns, and so does the run of
  \<open>linear_mul\<close> on the fresh buffer \<open>check\<close>.  Every cell \<open>(i, j)\<close> of the top-left \<open>N \<times> N\<close>
  region read through the view \<open>c\<close> holds the sum of the products \<open>A(i, k) * B(k, j)\<close>, the
  cell of \<open>check\<close> holds the same value, and the comparison that \<open>main\<close> asserts is true.
  The entries are the elements of any ring: the integers, or machine words with
  wrap-around.  The dimension \<open>N\<close> and the padded dimension \<open>P\<close> are at most 46340: these
  are the runs in which the constructor of every buffer, which computes
  \<open>dimension * dimension\<close> in a 32-bit \<open>int\<close>, allocates the square of its side, and in
  which every index \<open>i + dimension * j\<close> fits as well.
\<close>

theorem strassen_equals_linear:
  fixes adata bdata :: "'a::ring list"
  assumes "1 \<le> N" and "1 \<le> cutoff"
    and "length adata = nat (N * N)" and "length bdata = nat (N * N)"
    and "N \<le> 46340" and "padding_size N cutoff = Some P" and "P \<le> 46340"
  shows "\<exists>a b c h check h'.
           main_strassen N cutoff adata bdata = Some (Inr (a, b, c, h)) \<and>
           main_linear N a b h = Inr (check, h') \<and>
           (\<forall>i j. 0 \<le> i \<and> i < N \<and> 0 \<le> j \<and> j < N \<longrightarrow>
              submatrix_at h c i j =
                Inr (\<Sum>k\<in>{0..<N}. adata ! nat (i + N * k) * bdata ! nat (k + N * j)) \<and>
              submatrix_at h' c i j = submatrix_at h c i j \<and>
              submatrix_at h' (submatrix_new check) i j = submatrix_at h' c i j) \<and>
           submatrix_eq h' c (submatrix_new check) = Inr True"
proof -
  from assms(5) have "N \<le> 1073741824" by simp
  from main_run [OF assms(1-4) this] obtain P' h where
    m: "N \<le> P'" "padding_size N cutoff = Some P'"
       "main_strassen N cutoff adata bdata =
        Some (Inr (\<lparr>md_dimension = N, md_data = 0\<rparr>, \<lparr>md_dimension = N, md_data = 1\<rparr>,
                   (submatrix_new \<lparr>md_dimension = P', md_data = 2\<rparr>)\<lparr>sm_dimension := N\<rparr>, h))"
       "cells h 0 = adata" "cells h 1 = bdata" "length (cells h 2) = nat (P' * P')" "next_addr h = 4"
       "\<And>i j. in_sq N i j \<Longrightarrow>
         cells h 2 ! nat (i + P' * j) = (\<Sum>k\<in>{0..<N}. adata ! nat (i + N * k) * bdata ! nat (k + N * j))"
    by blast
  from m(2) assms(6) have same: "P' = P" by simp
  note P = m(1) [unfolded same] and run = m(3) [unfolded same]
    and h = m(4,5) m(6) [unfolded same] m(7) and val = m(8) [unfolded same]
  from main_linear_run [OF assms(1) h(1,2,4) assms(3,4)] obtain h' where
    lin: "main_linear N \<lparr>md_dimension = N, md_data = 0\<rparr> \<lparr>md_dimension = N, md_data = 1\<rparr> h =
               Inr (\<lparr>md_dimension = N, md_data = 4\<rparr>, h')"
    and h': "\<And>p. p \<noteq> 4 \<Longrightarrow> cells h' p = cells h p" "length (cells h' 4) = nat (N * N)"
    and val': "\<And>i j. in_sq N i j \<Longrightarrow>
         cells h' 4 ! nat (i + N * j) = (\<Sum>k\<in>{0..<N}. adata ! nat (i + N * k) * bdata ! nat (k + N * j))"
    by blast
  define cp where "cp = \<lparr>md_dimension = P, md_data = 2\<rparr>"
  define chk where "chk = \<lparr>md_dimension = N, md_data = 4\<rparr>"
  let ?c = "(submatrix_new cp)\<lparr>sm_dimension := N\<rparr>"
  have P0: "0 \<le> P" using assms(1) P by simp
  have c2: "cells h' 2 = cells h 2" by (simp add: h')
  have at_c: "submatrix_at g ?c i j = Inr (cells g 2 ! nat (i + P * j))"
    if "in_sq N i j" "length (cells g 2) = nat (P * P)" for i j and g :: "'a heap"
    using rd_narrow_view(1) [of g cp N i j] that P P0
    by (simp add: submatrix_at_rd resize_fields new_view_fields cp_def)
  have at_chk: "submatrix_at h' (submatrix_new chk) i j = Inr (cells h' 4 ! nat (i + N * j))"
    if "in_sq N i j" for i j
    using rd_full_view [of h' chk i j] that assms(1) h'(2)
    by (simp add: submatrix_at_rd new_view_fields chk_def)
  have cells_eq: "cells h' 2 ! nat (i + P * j) = cells h' 4 ! nat (i + N * j)" if "in_sq N i j" for i j
    using that by (simp add: c2 val val')
  have "submatrix_eq h' ?c (submatrix_new chk) = Inr True"
  proof (rule submatrix_eq_true)
    show "sm_dimension ?c = sm_dimension (submatrix_new chk)"
      by (simp add: new_view_fields chk_def)
    fix x y assume "in_sq (sm_dimension (submatrix_new chk)) x y"
    then have sq: "in_sq N x y" by (simp add: new_view_fields chk_def)
    have "md_get h' cp x y = Inr (cells h' 2 ! nat (x + P * y))"
      using rd_narrow_view(2) [of h' cp N x y] sq P h(3) by (simp add: cp_def c2)
    moreover have "md_get h' chk x y = Inr (cells h' 4 ! nat (x + N * y))"
      using rd_narrow_view(2) [of h' chk N x y] sq h'(2) by (simp add: chk_def)
    ultimately show "\<exists>u. md_get h' (sm_data ?c) x y = Inr u \<and>
        md_get h' (sm_data (submatrix_new chk)) x y = Inr u"
      using cells_eq [OF sq] by (simp add: submatrix_new_def)
  qed
  moreover have "submatrix_at h ?c i j =
                Inr (\<Sum>k\<in>{0..<N}. adata ! nat (i + N * k) * bdata ! nat (k + N * j)) \<and>
              submatrix_at h' ?c i j = submatrix_at h ?c i j \<and>
              submatrix_at h' (submatrix_new chk) i j = submatrix_at h' ?c i j"
    if "0 \<le> i \<and> i < N \<and> 0 \<le> j \<and> j < N" for i j
  proof -
    from that have sq: "in_sq N i j" by (simp add: in_sq_def)
    show ?thesis
      using at_c [OF sq, of h] at_c [OF sq, of h'] at_chk [OF sq] cells_eq [OF sq] val [OF sq] h(3)
      by (simp add: c2)
  qed
  ultimately show ?thesis
    using run lin unfolding cp_def chk_def by blast
qed

theorem strassen_equals_linear_witness:
  "(1::int) \<le> 2 \<and> (1::int) \<le> 1 \<and>
   length [1, 3, 2, 4 :: int] = nat (2 * 2) \<and> length [5, 7, 6, 8 :: int] = nat (2 * 2) \<and>
   (2::int) \<le> 46340 \<and> padding_size 2 1 = Some 2 \<and>
   (\<exists>a b c h check h'.
      main_strassen 2 1 [1, 3, 2, 4 :: int] [5, 7, 6, 8] = Some (Inr (a, b, c, h)) \<and>
      main_linear 2 a b h = Inr (check, h') \<and>
      submatrix_at h c 0 0 = Inr 19 \<and> submatrix_at h c 0 1 = Inr 22 \<and>
      submatrix_at h c 1 0 = Inr 43 \<and> submatrix_at h c 1 1 = Inr 50 \<and>
      submatrix_at h' (submatrix_new check) 1 1 = Inr 50 \<and>
      submatrix_eq h' c (submatrix_new check) = Inr True)"
proof -
  have hyp: "(1::int) \<le> 2" "(1::int) \<le> 1"
    "length [1, 3, 2, 4 :: int] = nat (2 * 2)" "length [5, 7, 6, 8 :: int] = nat (2 * 2)"
    "(2::int) \<le> 46340"
    by simp_all
  have pad: "padding_size 2 1 = Some 2" "(2::int) \<le> 46340"
    by (simp_all add: padding_size_def padding_size_loop.simps [of 1 0 2]
        padding_size_loop.simps [of 1 1 1] ceil_divide_nonneg wrap32_def)
  have two: "{0..<2::int} = {0, 1}" by auto
  from strassen_equals_linear [OF hyp pad] obtain a b c h check h' where
    r: "main_strassen 2 1 [1, 3, 2, 4 :: int] [5, 7, 6, 8] = Some (Inr (a, b, c, h))"
       "main_linear 2 a b h = Inr (check, h')"
       "submatrix_eq h' c (submatrix_new check) = Inr True"
    and v: "\<And>i j. 0 \<le> i \<and> i < 2 \<and> 0 \<le> j \<and> j < 2 \<Longrightarrow>
              submatrix_at h c i j =
                Inr (\<Sum>k\<in>{0..<2}. [1, 3, 2, 4] ! nat (i + 2 * k) * [5, 7, 6, 8] ! nat (k + 2 * j)) \<and>
              submatrix_at h' c i j = submatrix_at h c i j \<and>
              submatrix_at h' (submatrix_new check) i j = submatrix_at h' c i j"
    by blast
  from v [of 0 0] v [of 0 1] v [of 1 0] v [of 1 1]
  have "submatrix_at h c 0 0 = Inr 19" "submatrix_at h c 0 1 = Inr 22"
    "submatrix_at h c 1 0 = Inr 43" "submatrix_at h c 1 1 = Inr 50"
    "submatrix_at h' (submatrix_new check) 1 1 = Inr 50"
    by (simp_all add: two nat_numeral_diff_1 numeral_2_eq_2 numeral_3_eq_3)
  with r hyp pad(1) show ?thesis by blast
qed

section \<open>The branch of the recursion and its termination\<close>

text \<open>
  Claim C6, at the quadrant \<open>sub(1, 1)\<close> of a view of side 3 at the origin: its side is 2
  and its origin \<open>(2, 2)\<close>.
\<close>

theorem submatrix_sub_quadrant_witness:
  "0 \<le> sm_dimension (submatrix_new \<lparr>md_dimension = 3, md_data = 0\<rparr>) \<and>
   sm_dimension (submatrix_sub (submatrix_new \<lparr>md_dimension = 3, md_data = 0\<rparr>) 1 1) = 2 \<and>
   sm_i (submatrix_sub (submatrix_new \<lparr>md_dimension = 3, md_data = 0\<rparr>) 1 1) = 2 \<and>
   sm_j (submatrix_sub (submatrix_new \<lparr>md_dimension = 3, md_data = 0\<rparr>) 1 1) = 2"
proof -
  have h: "0 \<le> sm_dimension (submatrix_new \<lparr>md_dimension = 3, md_data = 0\<rparr>)"
    by (simp add: submatrix_new_def)
  show ?thesis
    using h submatrix_sub_quadrant [OF h, of 1 1, where 'a = int]
    by (simp add: submatrix_new_def)
qed

lemma smod_2_eq_1_iff: "(n::int) smod 2 = 1 \<longleftrightarrow> 0 < n \<and> odd n"
proof (cases "0 \<le> n")
  case True
  have "n \<noteq> 0" if "n mod 2 = 1" using that by auto
  with True show ?thesis by (auto simp: smod_2_nonneg odd_iff_mod_2_eq_one)
next
  case False
  then have "n smod 2 = - ((- n) mod 2)"
    by (simp add: signed_modulo_int_def sgn_if)
  moreover have "0 \<le> (- n) mod 2" by simp
  ultimately show ?thesis using False by auto
qed











text \<open>
  Claim C9.  With a cutoff of at least 1 every call of the recursion returns, whatever the
  views and the heap.  In the non-terminal branch the side \<open>n\<close> of the output view is even
  and at least 2, and every quadrant of a view of side \<open>n\<close> has the side \<open>ceil_divide n\<close>,
  which is \<open>n div 2\<close> and less than \<open>n\<close>.
\<close>

theorem strassen_mul_recursion_terminates:
  fixes h :: "'a::ring heap"
  assumes "1 \<le> cutoff"
  shows "(\<exists>r. strassen_mul_recursion cutoff A B C S h = Some r) \<and>
         (\<not> (sm_dimension C smod 2 = 1 \<or> sm_dimension C \<le> cutoff) \<longrightarrow>
            2 \<le> sm_dimension C \<and> even (sm_dimension C) \<and>
            ceil_divide (sm_dimension C) = sm_dimension C div 2 \<and>
            ceil_divide (sm_dimension C) < sm_dimension C \<and>
            (\<forall>s qx qy. sm_dimension s = sm_dimension C \<longrightarrow>
               sm_dimension (submatrix_sub s qx qy) = ceil_divide (sm_dimension C)))"
proof (intro conjI impI)
  show "\<exists>r. strassen_mul_recursion cutoff A B C S h = Some r"
    using assms by (rule recursion_returns)
next
  assume "\<not> (sm_dimension C smod 2 = 1 \<or> sm_dimension C \<le> cutoff)"
  with assms have n: "2 \<le> sm_dimension C" "even (sm_dimension C)"
    by (auto simp: smod_2_eq_1_iff)
  then show "2 \<le> sm_dimension C" "even (sm_dimension C)" by simp_all
  from n show "ceil_divide (sm_dimension C) = sm_dimension C div 2"
    by (auto simp: ceil_divide_nonneg elim!: evenE)
  from n show "ceil_divide (sm_dimension C) < sm_dimension C"
    by (intro ceil_divide_less)
  show "\<forall>s qx qy. sm_dimension s = sm_dimension C \<longrightarrow>
               sm_dimension (submatrix_sub s qx qy) = ceil_divide (sm_dimension C)"
    by (simp add: sub_fields)
qed

theorem strassen_mul_recursion_terminates_witness:
  "(1::int) \<le> 1 \<and>
   (\<exists>r. strassen_mul_recursion 1 (full_view 0) (full_view 1) (full_view 2) (full_view 3)
          (quad_heap [0, 0, 0, 0] [0, 0, 0, 0]) = Some r) \<and>
   2 \<le> sm_dimension (full_view 2) \<and>
   ceil_divide (sm_dimension (full_view 2)) < sm_dimension (full_view 2)"
proof -
  have h: "(1::int) \<le> 1" by simp
  show ?thesis
    using h strassen_mul_recursion_terminates [OF h, of "full_view 0" "full_view 1" "full_view 2"
        "full_view 3" "quad_heap [0, 0, 0, 0] [0, 0, 0, 0]"]
    by (simp add: full_view_def submatrix_new_def)
qed

lemmas quad_defs = quad_heap_def full_view_def submatrix_new_def buf_def stride_def solid_def

lemma full_view_dim: "sm_dimension (full_view p) = 2"
  by (simp add: full_view_def submatrix_new_def)

text \<open>
  Claim C5, as amended.  Let every cell of the output view \<open>c\<close> of side \<open>n\<close> lie inside its
  buffer (\<open>solid\<close>), and let \<open>c\<close> share no buffer cell with the input views \<open>a\<close> and \<open>b\<close>
  (their footprints \<open>fp\<close> are disjoint).  Then \<open>linear_mul\<close> returns, and every cell of \<open>c\<close>
  holds afterwards what it held before plus the sum over \<open>k\<close> in \<open>[0, n)\<close> of
  \<open>a(i, k) * b(k, j)\<close>; when \<open>c\<close> was all zero, that is the matrix product.  Here \<open>rd\<close> is
  the value that \<open>at\<close> reads in the heap before the call.
\<close>

theorem linear_mul_accumulates:
  fixes h :: "'a::ring heap"
  assumes "solid h c" and "0 \<le> stride a" and "0 \<le> stride b"
    and "fp h a \<inter> fp h c = {}" and "fp h b \<inter> fp h c = {}"
  shows "\<exists>h'. linear_mul a b c h = Inr h' \<and>
           (\<forall>i j. submatrix_at h a i j = Inr (rd h a i j) \<and> submatrix_at h b i j = Inr (rd h b i j) \<and>
                  submatrix_at h c i j = Inr (rd h c i j)) \<and>
           (\<forall>i j. 0 \<le> i \<and> i < sm_dimension c \<and> 0 \<le> j \<and> j < sm_dimension c \<longrightarrow>
              submatrix_at h' c i j =
                Inr (rd h c i j + (\<Sum>k\<in>{0..<sm_dimension c}. rd h a i k * rd h b k j))) \<and>
           ((\<forall>i j. rd h c i j = 0) \<longrightarrow>
              (\<forall>i j. 0 \<le> i \<and> i < sm_dimension c \<and> 0 \<le> j \<and> j < sm_dimension c \<longrightarrow>
                 submatrix_at h' c i j = Inr (\<Sum>k\<in>{0..<sm_dimension c}. rd h a i k * rd h b k j)))"
proof -
  from linear_mul_spec [OF assms] obtain h' where
    h': "linear_mul a b c h = Inr h'"
    "\<And>x y. in_sq (sm_dimension c) x y \<Longrightarrow>
        rd h' c x y = rd h c x y + (\<Sum>k\<in>{0..<sm_dimension c}. rd h a x k * rd h b k y)"
    by blast
  have sc: "0 \<le> stride c" using assms(1) by (rule solid_stride)
  show ?thesis
    using h' assms(2,3) sc by (auto simp: submatrix_at_rd in_sq_def)
qed

theorem linear_mul_accumulates_witness:
  "solid (quad_heap [0, 0, 0, 0] []) (full_view 2) \<and>
   0 \<le> stride (full_view 0) \<and> 0 \<le> stride (full_view 1) \<and>
   (\<exists>h'. linear_mul (full_view 0) (full_view 1) (full_view 2) (quad_heap [0, 0, 0, 0] []) = Inr h' \<and>
      submatrix_at h' (full_view 2) 0 0 = Inr 19 \<and> submatrix_at h' (full_view 2) 1 1 = Inr 50)"
proof -
  let ?h = "quad_heap [0, 0, 0, 0] []"
  have hyp: "solid ?h (full_view 2)" "0 \<le> stride (full_view 0)" "0 \<le> stride (full_view 1)"
    "fp ?h (full_view 0) \<inter> fp ?h (full_view 2) = {}" "fp ?h (full_view 1) \<inter> fp ?h (full_view 2) = {}"
    by (simp_all add: fp_disjoint_buf quad_defs)
  have two: "{0..<2::int} = {0, 1}" by auto
  have rds: "rd ?h (full_view 2) i j = 0"
    "rd ?h (full_view 0) 0 0 = 1" "rd ?h (full_view 0) 0 1 = 2"
    "rd ?h (full_view 0) 1 0 = 3" "rd ?h (full_view 0) 1 1 = 4"
    "rd ?h (full_view (Suc 0)) 0 0 = 5" "rd ?h (full_view (Suc 0)) 0 1 = 6"
    "rd ?h (full_view (Suc 0)) 1 0 = 7" "rd ?h (full_view (Suc 0)) 1 1 = 8" for i j
    by (auto simp: rd_origin_view quad_defs in_sq_def nth_Cons split: nat.splits)
  from linear_mul_accumulates [OF hyp] obtain h' where
    "linear_mul (full_view 0) (full_view 1) (full_view 2) ?h = Inr h'"
    "\<And>i j. 0 \<le> i \<and> i < sm_dimension (full_view 2) \<and> 0 \<le> j \<and> j < sm_dimension (full_view 2) \<Longrightarrow>
              submatrix_at h' (full_view 2) i j =
                Inr (rd ?h (full_view 2) i j +
                  (\<Sum>k\<in>{0..<sm_dimension (full_view 2)}. rd ?h (full_view 0) i k * rd ?h (full_view 1) k j))"
    by blast
  from this(1) this(2) [of 0 0] this(2) [of 1 1] hyp(1-3) show ?thesis
    by (simp add: rds two full_view_dim)
qed

text \<open>
  Claim C5 as it is stated fails for an output view with cells outside its buffer.  The
  output view of side 2 has a buffer of one cell; its cell \<open>(1, 1)\<close> reads 0 before and
  after \<open>linear_mul\<close>, and the sum of the products for that cell is \<open>2 * 3 + 4 * 5\<close>.
\<close>

theorem linear_mul_drops_outside_cells:
  "then_E (linear_mul (submatrix_new demo_x) (submatrix_new demo_y) wide_view small_heap)
      (\<lambda>h'. submatrix_at h' wide_view 1 1) = Inr 0 \<and>
   submatrix_at small_heap wide_view 1 1 = Inr 0 \<and>
   submatrix_at small_heap (submatrix_new demo_x) 1 0 = Inr 2 \<and>
   submatrix_at small_heap (submatrix_new demo_y) 0 1 = Inr 3 \<and>
   submatrix_at small_heap (submatrix_new demo_x) 1 1 = Inr 4 \<and>
   submatrix_at small_heap (submatrix_new demo_y) 1 1 = Inr 5 \<and>
   (0::int) \<noteq> 0 + (2 * 3 + 4 * 5)"
  by code_simp

text \<open>
  The second condition of the amended claim C5 is needed as well: with the first input
  view as the output view, the cell \<open>(0, 0)\<close> ends as 14, and the cells before the call
  give \<open>1 + (1 * 1 + 3 * 2) = 8\<close>.
\<close>

lemma linear_mul_aliased_output:
  "then_E (linear_mul (submatrix_new demo_x) (submatrix_new demo_y) (submatrix_new demo_x) demo_heap)
      (\<lambda>h'. submatrix_at h' (submatrix_new demo_x) 0 0) = Inr 14 \<and>
   submatrix_at demo_heap (submatrix_new demo_x) 0 0 = Inr 1 \<and>
   submatrix_at demo_heap (submatrix_new demo_x) 0 1 = Inr 3 \<and>
   submatrix_at demo_heap (submatrix_new demo_y) 0 0 = Inr 1 \<and>
   submatrix_at demo_heap (submatrix_new demo_y) 1 0 = Inr 2"
  by code_simp

lemma separate_buffers_pre:
  assumes "sm_dimension A = n" "sm_dimension B = n" "sm_dimension C = n" "sm_dimension S = n"
    and "0 \<le> stride A" "0 \<le> stride B"
    and "buf A \<noteq> buf C" "buf A \<noteq> buf S" "buf B \<noteq> buf C" "buf B \<noteq> buf S" "buf C \<noteq> buf S"
    and "solid h C" "solid h S"
  shows "pre n (A, B, C, S) h"
  unfolding pre_def
proof (intro conjI allI impI)
  fix w
  show "sm_dimension (parent (A, B, C, S) w) = n" using assms(1-4) by (cases w) simp_all
  show "0 \<le> stride (parent (A, B, C, S) w)"
    using assms(5,6) solid_stride [OF assms(12)] solid_stride [OF assms(13)] by (cases w) simp_all
  show "fp h (parent (A, B, C, S) w) \<inter> fp h (parent (A, B, C, S) OwnC) = {}" if "w \<noteq> OwnC"
    using that assms(7-11) by (cases w) (simp_all add: fp_disjoint_buf)
  show "fp h (parent (A, B, C, S) w) \<inter> fp h (parent (A, B, C, S) OwnS) = {}" if "w \<noteq> OwnS"
    using that assms(7-11) by (cases w) (simp_all add: fp_disjoint_buf)
qed (use assms(12,13) in simp_all)

text \<open>
  Claim C7.  Take views of one side \<open>n\<close> on four separate buffers, with the output view
  and the scratch view inside their buffers, and two heaps that hold the same cells in
  the buffers of \<open>A\<close> and \<open>B\<close> (the output buffer and the scratch buffer may hold anything
  in either heap).  Both runs of the recursion return, and every cell of the output view
  reads the same after the two runs.
\<close>

theorem recursion_independent_of_output_and_scratch:
  fixes h1 h2 :: "'a::ring heap"
  assumes "1 \<le> cutoff"
    and "sm_dimension A = n" "sm_dimension B = n" "sm_dimension C = n" "sm_dimension S = n"
    and "0 \<le> stride A" "0 \<le> stride B"
    and "buf A \<noteq> buf C" "buf A \<noteq> buf S" "buf B \<noteq> buf C" "buf B \<noteq> buf S" "buf C \<noteq> buf S"
    and "solid h1 C" "solid h1 S" "solid h2 C" "solid h2 S"
    and "cells h1 (buf A) = cells h2 (buf A)" "cells h1 (buf B) = cells h2 (buf B)"
  shows "\<exists>h1' h2'. strassen_mul_recursion cutoff A B C S h1 = Some (Inr h1') \<and>
                   strassen_mul_recursion cutoff A B C S h2 = Some (Inr h2') \<and>
                   (\<forall>x y. submatrix_at h1' C x y = submatrix_at h2' C x y)"
proof -
  have P1: "pre n (A, B, C, S) h1"
    using assms(2-12) assms(13,14) by (rule separate_buffers_pre)
  have P2: "pre n (A, B, C, S) h2"
    using assms(2-12) assms(15,16) by (rule separate_buffers_pre)
  from recursion_correct [OF assms(1) P1] obtain h1' where
    r1: "strassen_mul_recursion cutoff A B C S h1 = Some (Inr h1')"
        "rd h1' C = pmul n (rd h1 A) (rd h1 B)"
    by auto
  from recursion_correct [OF assms(1) P2] obtain h2' where
    r2: "strassen_mul_recursion cutoff A B C S h2 = Some (Inr h2')"
        "rd h2' C = pmul n (rd h2 A) (rd h2 B)"
    by auto
  have "rd h1 A = rd h2 A" "rd h1 B = rd h2 B"
    by (rule rd_cells_cong [OF assms(17)], rule rd_cells_cong [OF assms(18)])
  with r1(2) r2(2) have "rd h1' C = rd h2' C" by simp
  then have "submatrix_at h1' C x y = submatrix_at h2' C x y" for x y
    using solid_stride [OF assms(13)] by (simp add: submatrix_at_rd)
  with r1(1) r2(1) show ?thesis by blast
qed

theorem recursion_independent_of_output_and_scratch_witness:
  "(1::int) \<le> 1 \<and>
   solid (quad_heap [0, 0, 0, 0] [0, 0, 0, 0]) (full_view 2) \<and>
   solid (quad_heap [9, 9, 9, 9] [7, 7, 7, 7]) (full_view 3) \<and>
   cells (quad_heap [0, 0, 0, 0] [0, 0, 0, 0]) (buf (full_view 0)) =
     cells (quad_heap [9, 9, 9, 9] [7, 7, 7, 7]) (buf (full_view 0)) \<and>
   (\<exists>h1' h2'.
      strassen_mul_recursion 1 (full_view 0) (full_view 1) (full_view 2) (full_view 3)
        (quad_heap [0, 0, 0, 0] [0, 0, 0, 0]) = Some (Inr h1') \<and>
      strassen_mul_recursion 1 (full_view 0) (full_view 1) (full_view 2) (full_view 3)
        (quad_heap [9, 9, 9, 9] [7, 7, 7, 7]) = Some (Inr h2') \<and>
      submatrix_at h1' (full_view 2) 1 1 = submatrix_at h2' (full_view 2) 1 1)"
proof -
  let ?h1 = "quad_heap [0, 0, 0, 0] [0, 0, 0, 0]" and ?h2 = "quad_heap [9, 9, 9, 9] [7, 7, 7, 7]"
  have c: "(1::int) \<le> 1" by simp
  have d: "sm_dimension (full_view 0) = 2" "sm_dimension (full_view 1) = 2"
    "sm_dimension (full_view 2) = 2" "sm_dimension (full_view 3) = 2"
    by (simp_all add: full_view_dim)
  have s: "0 \<le> stride (full_view 0)" "0 \<le> stride (full_view 1)"
    by (simp_all add: quad_defs)
  have b: "buf (full_view 0) \<noteq> buf (full_view 2)" "buf (full_view 0) \<noteq> buf (full_view 3)"
    "buf (full_view 1) \<noteq> buf (full_view 2)" "buf (full_view 1) \<noteq> buf (full_view 3)"
    "buf (full_view 2) \<noteq> buf (full_view 3)"
    by (simp_all add: quad_defs)
  have sol: "solid ?h1 (full_view 2)" "solid ?h1 (full_view 3)"
    "solid ?h2 (full_view 2)" "solid ?h2 (full_view 3)"
    by (simp_all add: quad_defs)
  have e: "cells ?h1 (buf (full_view 0)) = cells ?h2 (buf (full_view 0))"
    "cells ?h1 (buf (full_view 1)) = cells ?h2 (buf (full_view 1))"
    by (simp_all add: quad_defs)
  from recursion_independent_of_output_and_scratch [OF c d s b sol e]
  show ?thesis using c sol(1,4) e(1) by blast
qed

text \<open>
  Claim C8.  Let the output view lie inside its buffer, and let the buffers of the input
  views be allocated buffers other than the output buffer.  Then \<open>strassen_mul\<close> returns
  for every cutoff of at least 1, and afterwards the buffers of \<open>a\<close> and \<open>b\<close>, like every
  buffer that existed before the call other than the output buffer, hold the cells they
  held before: the writes go to the output buffer and to the scratch buffer, which is
  allocated at the fresh address \<open>next_addr h\<close>.
\<close>

theorem strassen_mul_keeps_inputs:
  fixes h :: "'a::ring heap"
  assumes "1 \<le> cutoff"
    and "solid h c" "0 \<le> sm_dimension c"
    and "0 \<le> stride a" "0 \<le> stride b"
    and "buf a \<noteq> buf c" "buf b \<noteq> buf c"
    and "buf a < next_addr h" "buf b < next_addr h" "buf c < next_addr h"
  shows "\<exists>h'. strassen_mul a b c cutoff h = Some (Inr h') \<and>
           cells h' (buf a) = cells h (buf a) \<and> cells h' (buf b) = cells h (buf b) \<and>
           (\<forall>p. p < next_addr h \<and> p \<noteq> buf c \<longrightarrow> cells h' p = cells h p)"
proof -
  from strassen_mul_correct [OF assms] obtain h' where
    "strassen_mul a b c cutoff h = Some (Inr h')"
    "\<And>p. p \<noteq> buf c \<Longrightarrow> p \<noteq> next_addr h \<Longrightarrow> cells h' p = cells h p"
    by blast
  with assms(6-9) show ?thesis by (intro exI [of _ h']) auto
qed

theorem strassen_mul_keeps_inputs_witness:
  "(1::int) \<le> 1 \<and> solid (quad_heap [0, 0, 0, 0] []) (full_view 2) \<and>
   buf (full_view 0) \<noteq> buf (full_view 2) \<and> buf (full_view 0) < next_addr (quad_heap [0, 0, 0, 0] []) \<and>
   (\<exists>h'. strassen_mul (full_view 0) (full_view 1) (full_view 2) 1 (quad_heap [0, 0, 0, 0] []) = Some (Inr h') \<and>
      cells h' (buf (full_view 0)) = [1, 3, 2, 4] \<and> cells h' (buf (full_view 1)) = [5, 7, 6, 8])"
proof -
  let ?h = "quad_heap [0, 0, 0, 0] []"
  have c: "(1::int) \<le> 1" by simp
  have sol: "solid ?h (full_view 2)" "0 \<le> sm_dimension (full_view 2)"
    by (simp_all add: quad_defs)
  have s: "0 \<le> stride (full_view 0)" "0 \<le> stride (full_view 1)"
    by (simp_all add: quad_defs)
  have b: "buf (full_view 0) \<noteq> buf (full_view 2)" "buf (full_view 1) \<noteq> buf (full_view 2)"
    "buf (full_view 0) < next_addr ?h" "buf (full_view 1) < next_addr ?h" "buf (full_view 2) < next_addr ?h"
    by (simp_all add: quad_defs)
  have v: "cells ?h (buf (full_view 0)) = [1, 3, 2, 4]" "cells ?h (buf (full_view 1)) = [5, 7, 6, 8]"
    by (simp_all add: quad_defs)
  from strassen_mul_keeps_inputs [OF c sol s b] obtain h' where
    "strassen_mul (full_view 0) (full_view 1) (full_view 2) 1 ?h = Some (Inr h')"
    "cells h' (buf (full_view 0)) = cells ?h (buf (full_view 0))"
    "cells h' (buf (full_view 1)) = cells ?h (buf (full_view 1))"
    by blast
  with c sol(1) b(1,3) v show ?thesis by auto
qed

end
